theory Spec2Isabelle
  imports Complex_Main "HOL-Library.Word" "HOL-Library.Log_Nat"
begin

unbundle bit_operations_syntax

section \<open>The Go package: configuration, layout, encoder, decoder\<close>

text \<open>
  Go's \<open>int\<close> is modelled as \<open>int\<close> (no value here comes near 64 bits), \<open>byte\<close> and
  \<open>uint8\<close> as \<open>8 word\<close>. Go's integer division truncates towards zero.
\<close>

type_synonym byte = "8 word"

definition go_div :: "int \<Rightarrow> int \<Rightarrow> int" where
  "go_div a b = sgn a * sgn b * (\<bar>a\<bar> div \<bar>b\<bar>)"

subsection \<open>Double-precision arithmetic\<close>

text \<open>
  Go's \<open>float64\<close> and JavaScript's numbers are IEEE 754 binary64. A finite double is a
  rational, and every arithmetic operation returns the exact result rounded to the nearest
  double, ties to the even significand. \<open>dbl\<close> is that rounding: \<open>expo x\<close> is the exponent
  \<open>e\<close> with \<open>2^e \<le> |x| < 2^(e+1)\<close>, the spacing of doubles around \<open>x\<close> is \<open>2^(e-52)\<close> (and
  \<open>2^(-1074)\<close> below \<open>2^(-1022)\<close>), and \<open>x\<close> is rounded to a multiple of it. An operation
  \<open>a + b\<close> of the source is \<open>dbl (a + b)\<close> in the model, a literal \<open>0.15\<close> is
  \<open>dbl (15 / 100)\<close>. Overflow to infinity (beyond \<open>2^1024\<close>) and NaN are not modelled.
\<close>

definition expo :: "rat \<Rightarrow> int" where
  "expo x =
     (let (p, q) = quotient_of \<bar>x\<bar>;
          k = bitlen p - bitlen q
      in if 2 powi k \<le> \<bar>x\<bar> then k else k - 1)"

definition roundHalfEven :: "rat \<Rightarrow> int" where
  "roundHalfEven m =
     (let f = \<lfloor>m\<rfloor>;
          d = m - of_int f
      in if d < 1 / 2 then f
         else if d > 1 / 2 then f + 1
         else if even f then f else f + 1)"

definition dbl :: "rat \<Rightarrow> rat" where
  "dbl x =
     (if x = 0 then 0
      else (let e = max (expo x) (- 1022);
                ulp = 2 powi (e - 52)
            in of_int (roundHalfEven (x / ulp)) * ulp))"

subsection \<open>dotbeam.go\<close>

record Config =
  Rings :: int
  BitsPerDot :: int
  FPS :: int
  UseFountain :: bool

definition DefaultConfig :: Config where
  "DefaultConfig = \<lparr>Rings = 4, BitsPerDot = 3, FPS = 5, UseFountain = False\<rparr>"

text \<open>
  A \<open>Dot\<close> carries its ring number, its position in the ring and its value. The
  coordinates \<open>X\<close>, \<open>Y\<close> of the source (floating-point sine and cosine of the angle) are
  left out: nothing below reads them.
\<close>

record Dot =
  Ring :: int
  DIndex :: int
  Value :: byte

record Frame =
  Index :: int
  Total :: int
  Dots :: "Dot list"
  Payload :: "byte list"

text \<open>\<open>TotalDots\<close>: the loop \<open>for ring := 1; ring <= c.Rings; ring++\<close>.\<close>

definition TotalDots :: "Config \<Rightarrow> int" where
  "TotalDots c = foldl (\<lambda>total ring. total + ring * 6) 0 [1..Rings c]"

definition BitsPerFrame :: "Config \<Rightarrow> int" where
  "BitsPerFrame c = TotalDots c * BitsPerDot c"

definition BytesPerFrame :: "Config \<Rightarrow> int" where
  "BytesPerFrame c = go_div (BitsPerFrame c) 8 - 2"

subsection \<open>layout.go\<close>

text \<open>
  \<open>ringRadius\<close>. The branch for a single ring returns the literal \<open>0.40\<close> without
  arithmetic.
\<close>

definition ringRadius :: "int \<Rightarrow> int \<Rightarrow> rat" where
  "ringRadius ring totalRings =
     (if totalRings = 1 then dbl (40 / 100)
      else (let minR = dbl (22 / 100); maxR = dbl (70 / 100)
            in dbl (minR + dbl (dbl (dbl (maxR - minR) * of_int (ring - 1))
                                / of_int (totalRings - 1)))))"

text \<open>The JavaScript layout module (layout.js) has the same function, on its own constants.\<close>

definition MIN_RING_RADIUS :: rat where "MIN_RING_RADIUS = dbl (22 / 100)"
definition MAX_RING_RADIUS :: rat where "MAX_RING_RADIUS = dbl (70 / 100)"

definition ringRadius_js :: "int \<Rightarrow> int \<Rightarrow> rat" where
  "ringRadius_js ring totalRings =
     (if totalRings = 1 then dbl (4 / 10)
      else dbl (MIN_RING_RADIUS
                + dbl (dbl (dbl (MAX_RING_RADIUS - MIN_RING_RADIUS) * of_int (ring - 1))
                       / of_int (totalRings - 1))))"

text \<open>
  The browser core (dotbeam-core.js), whose \<open>layout\<close> the scanner and the renderer use,
  computes the radius of ring \<open>n\<close> inside its ring loop. Its comment reads
  \<^verbatim>\<open>With 1 ring  -> radius = midpoint\<close>.
\<close>

definition RING_RADIUS_MIN :: rat where "RING_RADIUS_MIN = dbl (22 / 100)"
definition RING_RADIUS_MAX :: rat where "RING_RADIUS_MAX = dbl (70 / 100)"

definition coreRingRadius :: "int \<Rightarrow> int \<Rightarrow> rat" where
  "coreRingRadius n numRings =
     (if numRings = 1 then dbl (dbl (RING_RADIUS_MIN + RING_RADIUS_MAX) / 2)
      else dbl (RING_RADIUS_MIN
                + dbl (dbl (dbl (RING_RADIUS_MAX - RING_RADIUS_MIN) * of_int (n - 1))
                       / of_int (numRings - 1))))"

record Position =
  Angle :: rat

record RingLayout =
  Radius :: rat
  DotCount :: int
  Positions :: "Position list"

record Layout =
  LConfig :: Config
  Width :: rat
  Height :: rat
  LRings :: "RingLayout list"

datatype error = ErrIncompleteData | ErrInvalidFrame | Panic

text \<open>
  \<open>NewLayout\<close>: \<open>make([]RingLayout, config.Rings)\<close> panics on a negative ring count.
  The three anchors (floating-point points) are left out of the record.
\<close>

definition ringLayout :: "Config \<Rightarrow> int \<Rightarrow> RingLayout" where
  "ringLayout config i =
     (let ring = i + 1;
          dotCount = ring * 6;
          radius = ringRadius ring (Rings config)
      in \<lparr>Radius = radius, DotCount = dotCount,
          Positions = map (\<lambda>j. \<lparr>Angle = dbl (dbl (of_int j * 360) / of_int dotCount)\<rparr>)
                        [0..dotCount - 1]\<rparr>)"

definition NewLayout :: "Config \<Rightarrow> rat \<Rightarrow> rat \<Rightarrow> error + Layout" where
  "NewLayout config width height =
     (if Rings config < 0 then Inl Panic
      else Inr \<lparr>LConfig = config, Width = width, Height = height,
                LRings = map (ringLayout config) [0..Rings config - 1]\<rparr>)"

subsection \<open>encoder.go\<close>

record Encoder =
  e_config :: Config
  e_layout :: Layout

definition NewEncoder :: "Config \<Rightarrow> error + Encoder" where
  "NewEncoder config =
     (case NewLayout config 1 1 of
        Inl e \<Rightarrow> Inl e
      | Inr layout \<Rightarrow> Inr \<lparr>e_config = config, e_layout = layout\<rparr>)"

text \<open>\<open>bytesToBits\<close>: slot \<open>i*8 + (7-j)\<close> receives \<open>(b >> j) & 1\<close>, for \<open>j\<close> from 7 down to 0.\<close>

definition byteBits :: "byte \<Rightarrow> byte list" where
  "byteBits b = map (\<lambda>j. drop_bit j b AND 1) [7, 6, 5, 4, 3, 2, 1, 0]"

definition bytesToBits :: "byte list \<Rightarrow> byte list" where
  "bytesToBits data = concat (map byteBits data)"

text \<open>The loop \<open>for b := 0; b < bitsPerDot; b++ { value = (value << 1) | bits[bitStart+b] }\<close>.\<close>

definition dotValue :: "byte list \<Rightarrow> int \<Rightarrow> int \<Rightarrow> byte" where
  "dotValue bits bitStart bitsPerDot =
     foldl (\<lambda>value b. push_bit 1 value OR bits ! nat (bitStart + b)) 0 [0..bitsPerDot - 1]"

text \<open>
  The inner loop of \<open>bytesToDots\<close> over one ring's positions, threading \<open>dotIndex\<close> and
  \<open>dots\<close>; \<open>break\<close> leaves the ring with both unchanged.
\<close>

fun ringDots :: "byte list \<Rightarrow> int \<Rightarrow> int \<Rightarrow> int \<Rightarrow> Position list
    \<Rightarrow> int \<times> Dot list \<Rightarrow> int \<times> Dot list" where
  "ringDots bits bitsPerDot ringNo j [] (dotIndex, dots) = (dotIndex, dots)"
| "ringDots bits bitsPerDot ringNo j (pos # ps) (dotIndex, dots) =
     (let bitStart = dotIndex * bitsPerDot
      in if bitStart + bitsPerDot > int (length bits) then (dotIndex, dots)
         else ringDots bits bitsPerDot ringNo (j + 1) ps
                (dotIndex + 1,
                 dots @ [\<lparr>Ring = ringNo, DIndex = j,
                          Value = dotValue bits bitStart bitsPerDot\<rparr>]))"

definition bytesToDots :: "Encoder \<Rightarrow> byte list \<Rightarrow> Dot list" where
  "bytesToDots e data =
     (let bits = bytesToBits data;
          bitsPerDot = BitsPerDot (e_config e)
      in snd (foldl (\<lambda>acc ring.
                 ringDots bits bitsPerDot (go_div (DotCount ring) 6) 0 (Positions ring) acc)
               (0, []) (LRings (e_layout e))))"

text \<open>One iteration of the frame loop of \<open>Encode\<close>.\<close>

definition encodeFrame :: "Encoder \<Rightarrow> byte list \<Rightarrow> int \<Rightarrow> int \<Rightarrow> int \<Rightarrow> Frame" where
  "encodeFrame e data bytesPerFrame totalFrames i =
     (let start = i * bytesPerFrame;
          end0 = start + bytesPerFrame;
          end1 = (if end0 > int (length data) then int (length data) else end0);
          chunk = drop (nat start) (take (nat end1) data);
          frameBytes = [word_of_int i, word_of_int totalFrames] @ chunk;
          totalBits = BitsPerFrame (e_config e);
          totalBytes = go_div (totalBits + 7) 8;
          frameBytes' = (if int (length frameBytes) < totalBytes
                         then frameBytes @ replicate (nat totalBytes - length frameBytes) 0
                         else frameBytes);
          dots = bytesToDots e frameBytes'
      in \<lparr>Index = i, Total = totalFrames, Dots = dots, Payload = chunk\<rparr>)"

definition Encode :: "Encoder \<Rightarrow> byte list \<Rightarrow> Frame list" where
  "Encode e data =
     (let bytesPerFrame = BytesPerFrame (e_config e)
      in if bytesPerFrame \<le> 0 then []
         else (let totalFrames0 = go_div (int (length data) + bytesPerFrame - 1) bytesPerFrame;
                   totalFrames = (if totalFrames0 > 255 then 255 else totalFrames0)
               in map (encodeFrame e data bytesPerFrame totalFrames) [0..totalFrames - 1]))"

subsection \<open>decoder.go\<close>

record Decoder =
  d_config :: Config
  frames :: "int \<rightharpoonup> byte list"
  total :: int
  received :: int

definition NewDecoder :: "Config \<Rightarrow> Decoder" where
  "NewDecoder config = \<lparr>d_config = config, frames = Map.empty, total = 0, received = 0\<rparr>"

text \<open>
  \<open>dotsToBytes\<close>: \<open>make([]uint8, len(dots)*bitsPerDot)\<close> panics on a negative length.
  Each dot fills its \<open>bitsPerDot\<close> slots with \<open>(dot.Value >> b) & 1\<close>, \<open>b\<close> from
  \<open>bitsPerDot-1\<close> down to 0; then every 8 bits are packed into a byte.
\<close>

definition dotBits :: "int \<Rightarrow> Dot \<Rightarrow> byte list" where
  "dotBits bitsPerDot dot =
     map (\<lambda>b. drop_bit (nat b) (Value dot) AND 1) (rev [0..bitsPerDot - 1])"

definition packByte :: "byte list \<Rightarrow> nat \<Rightarrow> byte" where
  "packByte bits i = foldl (\<lambda>val j. push_bit 1 val OR bits ! (i * 8 + j)) 0 [0..<8]"

definition dotsToBytes :: "Decoder \<Rightarrow> Dot list \<Rightarrow> error + byte list" where
  "dotsToBytes d dots =
     (let bitsPerDot = BitsPerDot (d_config d)
      in if int (length dots) * bitsPerDot < 0 then Inl Panic
         else (let bits = concat (map (dotBits bitsPerDot) dots);
                   numBytes = length bits div 8
               in Inr (map (packByte bits) [0..<numBytes])))"

text \<open>
  \<open>AddFrame\<close> returns its result together with the decoder after the call; on an
  error return the decoder is the one it was given.
\<close>

definition AddFrame :: "Decoder \<Rightarrow> Dot list \<Rightarrow> (error + bool) \<times> Decoder" where
  "AddFrame d dots =
     (if length dots = 0 then (Inl ErrInvalidFrame, d)
      else case dotsToBytes d dots of
             Inl e \<Rightarrow> (Inl e, d)
           | Inr data \<Rightarrow>
               if length data < 2 then (Inl ErrInvalidFrame, d)
               else (let frameIndex = uint (data ! 0);
                         frameTotal = uint (data ! 1)
                     in if frameTotal = 0 then (Inl ErrInvalidFrame, d)
                        else (let d1 = d\<lparr>total := frameTotal\<rparr>;
                                  payload = drop 2 data;
                                  d2 = (if frames d1 frameIndex = None
                                        then d1\<lparr>frames := (frames d1)(frameIndex \<mapsto> payload),
                                                received := received d1 + 1\<rparr>
                                        else d1)
                              in (Inr (received d2 \<ge> total d2), d2))))"

text \<open>\<open>Data\<close>: the loop over \<open>i < d.total\<close> stops with an error at the first missing index.\<close>

fun collect :: "(int \<rightharpoonup> byte list) \<Rightarrow> int list \<Rightarrow> byte list \<Rightarrow> error + byte list" where
  "collect fr [] result = Inr result"
| "collect fr (i # is) result =
     (case fr i of
        None \<Rightarrow> Inl ErrIncompleteData
      | Some payload \<Rightarrow> collect fr is (result @ payload))"

definition Data :: "Decoder \<Rightarrow> error + byte list" where
  "Data d =
     (if received d < total d then Inl ErrIncompleteData
      else collect (frames d) [0..total d - 1] [])"

section \<open>The scanner (scanner.js)\<close>

text \<open>
  JavaScript numbers that hold integers (dot values, header bytes, counts) are \<open>int\<close>
  or \<open>nat\<close>. Colour channels, hues and distances are doubles: rationals, with every
  operation rounded by \<open>dbl\<close>. The progress fraction is an exact rational and transforms
  are reals, without rounding.
\<close>

subsection \<open>Palette matching\<close>

record Color =
  c_r :: rat
  c_g :: rat
  c_b :: rat

definition palette :: "Color list" where
  "palette =
     [\<lparr>c_r = 0xff, c_g = 0x44, c_b = 0x44\<rparr>,
      \<lparr>c_r = 0xff, c_g = 0x8c, c_b = 0x00\<rparr>,
      \<lparr>c_r = 0xff, c_g = 0xd7, c_b = 0x00\<rparr>,
      \<lparr>c_r = 0x44, c_g = 0xff, c_b = 0x44\<rparr>,
      \<lparr>c_r = 0x00, c_g = 0xce, c_b = 0xd1\<rparr>,
      \<lparr>c_r = 0x44, c_g = 0x88, c_b = 0xff\<rparr>,
      \<lparr>c_r = 0xaa, c_g = 0x44, c_b = 0xff\<rparr>,
      \<lparr>c_r = 0xff, c_g = 0x44, c_b = 0xff\<rparr>]"

text \<open>
  JavaScript's \<open>%\<close>: the remainder of the division truncated towards zero. On doubles
  the remainder is exact, so there is no rounding here.
\<close>

definition js_rem :: "rat \<Rightarrow> rat \<Rightarrow> rat" where
  "js_rem x y = (let q = x / y in x - y * of_int (if q < 0 then \<lceil>q\<rceil> else \<lfloor>q\<rfloor>))"

text \<open>
  \<open>hueAngle\<close> is the part of \<open>rgbToHue\<close> after its near-achromatic test: the hue in
  degrees computed from the channel spread \<open>delta\<close> (which is at least 10 where
  \<open>rgbToHue\<close> gets there, so the divisions are by a nonzero number).
\<close>

definition hueAngle :: "rat \<Rightarrow> rat \<Rightarrow> rat \<Rightarrow> rat" where
  "hueAngle r g b =
     (let mx = max r (max g b);
          mn = min r (min g b);
          delta = dbl (mx - mn);
          hue = (if mx = r then js_rem (dbl (dbl (g - b) / delta)) 6
                 else if mx = g then dbl (dbl (dbl (b - r) / delta) + 2)
                 else dbl (dbl (dbl (r - g) / delta) + 4));
          hue' = dbl (hue * 60)
      in if hue' < 0 then dbl (hue' + 360) else hue')"

definition rgbToHue :: "rat \<Rightarrow> rat \<Rightarrow> rat \<Rightarrow> rat" where
  "rgbToHue r g b =
     (let mx = max r (max g b);
          mn = min r (min g b);
          delta = dbl (mx - mn)
      in if delta < 10 then - 1 else hueAngle r g b)"

definition paletteHues :: "rat list" where
  "paletteHues = map (\<lambda>p. rgbToHue (c_r p) (c_g p) (c_b p)) palette"

definition hueDist :: "rat \<Rightarrow> rat \<Rightarrow> rat" where
  "hueDist h1 h2 = (let d = \<bar>dbl (h1 - h2)\<bar> in if d > 180 then dbl (360 - d) else d)"

definition colorDistSq :: "rat \<Rightarrow> rat \<Rightarrow> rat \<Rightarrow> rat \<Rightarrow> rat \<Rightarrow> rat \<Rightarrow> rat" where
  "colorDistSq r1 g1 b1 r2 g2 b2 =
     (let dr = dbl (r1 - r2); dg = dbl (g1 - g2); db = dbl (b1 - b2)
      in dbl (dbl (dbl (dr * dr) + dbl (dg * dg)) + dbl (db * db)))"

text \<open>
  The two search loops of \<open>matchColor\<close>. The pair is \<open>(bestIdx, bestDist)\<close>, with
  \<open>None\<close> for the initial \<open>Infinity\<close>.
\<close>

definition closer :: "(nat \<Rightarrow> rat) \<Rightarrow> nat \<times> rat option \<Rightarrow> nat \<Rightarrow> nat \<times> rat option" where
  "closer dst best i =
     (case snd best of
        None \<Rightarrow> (i, Some (dst i))
      | Some bestDist \<Rightarrow> if dst i < bestDist then (i, Some (dst i)) else best)"

definition nearestHue :: "rat \<Rightarrow> nat" where
  "nearestHue sampleHue =
     fst (foldl (closer (\<lambda>i. hueDist sampleHue (paletteHues ! i))) (0, None)
            [0..<length palette])"

definition nearestRGB :: "rat \<Rightarrow> rat \<Rightarrow> rat \<Rightarrow> nat" where
  "nearestRGB r g b =
     fst (foldl (closer (\<lambda>j. colorDistSq r g b (c_r (palette ! j)) (c_g (palette ! j))
                               (c_b (palette ! j)))) (0, None)
            [0..<length palette])"

text \<open>The test that sends a sample to hue matching: \<open>sat > 0.15 && max > 30\<close>.\<close>

definition chromatic :: "rat \<Rightarrow> rat \<Rightarrow> rat \<Rightarrow> bool" where
  "chromatic r g b =
     (let mx = max r (max g b);
          mn = min r (min g b);
          sat = (if mx = 0 then 0 else dbl (dbl (mx - mn) / mx))
      in sat > dbl (15 / 100) \<and> mx > 30)"

definition matchColor :: "rat \<Rightarrow> rat \<Rightarrow> rat \<Rightarrow> nat" where
  "matchColor r g b =
     (if chromatic r g b
      then (let sampleHue = rgbToHue r g b
            in if sampleHue \<ge> 0 then nearestHue sampleHue else nearestRGB r g b)
      else nearestRGB r g b)"

subsection \<open>The consensus decoder\<close>

definition MIN_VOTES :: nat where "MIN_VOTES = 5"
definition FT_SETTLE_MIN :: nat where "FT_SETTLE_MIN = 10"

text \<open>
  \<open>_votes\<close>, \<open>_frames\<close> and \<open>_ftCounts\<close> are objects keyed by header bytes; \<open>null\<close> in
  \<open>_totalFrames\<close> is \<open>None\<close>.
\<close>

record JSDecoder =
  js_votes :: "int \<rightharpoonup> int list list"
  js_frames :: "int \<rightharpoonup> int list"
  js_totalFrames :: "int option"
  js_received :: nat
  js_ftCounts :: "int \<rightharpoonup> nat"
  js_ftTotal :: nat

record JSResult =
  complete :: bool
  progress_of :: rat


text \<open>
  \<open>_dotsToBytes\<close>: three bits per dot value, most significant first, then one byte for
  every full group of 8 bits (the loop \<open>for (b = 0; b + 7 < bits.length; b += 8)\<close>).
\<close>

definition dotValueBits :: "int \<Rightarrow> int list" where
  "dotValueBits x = (let val = x AND 7 in [drop_bit 2 val AND 1, drop_bit 1 val AND 1, val AND 1])"

definition packByteJS :: "int list \<Rightarrow> nat \<Rightarrow> int" where
  "packByteJS bits k = foldl (\<lambda>byte bi. push_bit 1 byte OR bits ! (8 * k + bi)) 0 [0..<8]"

definition dotsToBytesJS :: "int list \<Rightarrow> int list" where
  "dotsToBytesJS dotValues =
     (let bits = concat (map dotValueBits dotValues)
      in map (packByteJS bits) [0..<length bits div 8])"

text \<open>
  \<open>_majorityVote\<close>. A capture shorter than the first one reads \<open>undefined\<close> at a missing
  position, and \<open>undefined & 0x07\<close> is 0.
\<close>

definition maskedAt :: "int list \<Rightarrow> nat \<Rightarrow> nat" where
  "maskedAt capture d = (if d < length capture then nat ((capture ! d) AND 7) else 0)"

definition countVotes :: "int list list \<Rightarrow> nat \<Rightarrow> nat list" where
  "countVotes captures d =
     foldl (\<lambda>counts capture. counts[maskedAt capture d := counts ! maskedAt capture d + 1])
       [0, 0, 0, 0, 0, 0, 0, 0] captures"

definition pickBest :: "nat list \<Rightarrow> nat" where
  "pickBest counts =
     foldl (\<lambda>best v2. if counts ! v2 > counts ! best then v2 else best) 0 [1..<8]"

definition majorityVote :: "int list list \<Rightarrow> int list" where
  "majorityVote captures =
     (if length captures = 0 then []
      else (let numDots = length (captures ! 0)
            in map (\<lambda>d. int (pickBest (countVotes captures d))) [0..<numDots]))"

text \<open>\<open>progress\<close>: the loop over \<open>i < this._totalFrames\<close>.\<close>

definition progress :: "JSDecoder \<Rightarrow> rat" where
  "progress s =
     (case js_totalFrames s of
        None \<Rightarrow> 0
      | Some t \<Rightarrow>
          if t = 0 then 0
          else (let total = foldl (\<lambda>total i.
                               if js_frames s i \<noteq> None then total + 1
                               else (case js_votes s i of
                                       None \<Rightarrow> total
                                     | Some vs \<Rightarrow>
                                         total + min (of_nat (length vs) / of_nat MIN_VOTES)
                                                   (99 / 100)))
                             0 [0..t - 1]
                in min (total / of_int t) 1))"

text \<open>
  The tally step of \<open>addFrame\<close>:
  \<open>_ftCounts[totalFrames] = (_ftCounts[totalFrames] || 0) + 1; _ftTotal = (_ftTotal || 0) + 1\<close>.
\<close>

definition tally :: "JSDecoder \<Rightarrow> int \<Rightarrow> JSDecoder" where
  "tally s totalFrames =
     s\<lparr>js_ftCounts := (js_ftCounts s)
          (totalFrames \<mapsto> (case js_ftCounts s totalFrames of None \<Rightarrow> 0 | Some c \<Rightarrow> c) + 1),
       js_ftTotal := js_ftTotal s + 1\<rparr>"

text \<open>
  The plurality loop \<open>for (var ftKey in this._ftCounts)\<close>. The keys of \<open>_ftCounts\<close> are
  header bytes, and JavaScript enumerates integer keys in ascending order. The pair is
  \<open>(bestFt, bestCount)\<close>.
\<close>

definition plurality :: "(int \<rightharpoonup> nat) \<Rightarrow> int option \<times> nat" where
  "plurality counts =
     foldl (\<lambda>(bestFt, bestCount) ftKey.
              case counts ftKey of
                None \<Rightarrow> (bestFt, bestCount)
              | Some c \<Rightarrow> if c > bestCount then (Some ftKey, c) else (bestFt, bestCount))
       (None, 0) [0..255]"

text \<open>
  The locking block of \<open>addFrame\<close>, run on the tallied state: \<open>Inl\<close> is an early return
  with progress 0, \<open>Inr\<close> the state with which \<open>addFrame\<close> goes on.
\<close>

definition lockTotal :: "JSDecoder \<Rightarrow> (JSDecoder \<times> JSResult) + JSDecoder" where
  "lockTotal s =
     (if js_totalFrames s = None
      then (if js_ftTotal s < FT_SETTLE_MIN
            then Inl (s, \<lparr>complete = False, progress_of = 0\<rparr>)
            else (let (bestFt, bestCount) = plurality (js_ftCounts s)
                  in if (of_nat bestCount :: rat) < of_nat (js_ftTotal s) * (3 / 10)
                     then Inl (s, \<lparr>complete = False, progress_of = 0\<rparr>)
                     else Inr (s\<lparr>js_totalFrames := bestFt\<rparr>)))
      else Inr s)"

definition nth_opt :: "'a list \<Rightarrow> nat \<Rightarrow> 'a option" where
  "nth_opt xs i = (if i < length xs then Some (xs ! i) else None)"

text \<open>
  The accumulation and voting block of \<open>addFrame\<close>, for a capture whose total agrees
  with the locked one. An \<open>undefined\<close> voted header byte (\<open>None\<close>) differs from every
  number and from \<open>null\<close>; in \<open>_received >= _totalFrames\<close> a \<open>null\<close> total counts as 0.
\<close>

definition accumulate :: "JSDecoder \<Rightarrow> int \<Rightarrow> int list \<Rightarrow> JSDecoder \<times> JSResult" where
  "accumulate s frameIndex dotValues =
     (let bucket = (case js_votes s frameIndex of None \<Rightarrow> [] | Some vs \<Rightarrow> vs) @ [dotValues];
          s1 = s\<lparr>js_votes := (js_votes s)(frameIndex \<mapsto> bucket)\<rparr>;
          numVotes = length bucket
      in if numVotes \<ge> MIN_VOTES
         then (let voted = majorityVote bucket;
                   votedBytes = dotsToBytesJS voted;
                   votedFi = nth_opt votedBytes 0;
                   votedFt = nth_opt votedBytes 1
               in if votedFi \<noteq> Some frameIndex \<or> votedFt = None
                     \<or> votedFt \<noteq> js_totalFrames s1
                  then (let s2 = s1\<lparr>js_votes := (js_votes s1)(frameIndex \<mapsto> [])\<rparr>
                        in (s2, \<lparr>complete = False, progress_of = progress s2\<rparr>))
                  else (let payload = drop 2 votedBytes;
                            s2 = (if js_frames s1 frameIndex = None
                                  then s1\<lparr>js_received := js_received s1 + 1\<rparr> else s1);
                            s3 = s2\<lparr>js_frames := (js_frames s2)(frameIndex \<mapsto> payload)\<rparr>
                        in (s3, \<lparr>complete = (case js_totalFrames s3 of
                                                 None \<Rightarrow> True
                                               | Some t \<Rightarrow> int (js_received s3) \<ge> t),
                                  progress_of = progress s3\<rparr>)))
         else (s1, \<lparr>complete = (case js_totalFrames s1 of
                                  None \<Rightarrow> True
                                | Some t \<Rightarrow> int (js_received s1) \<ge> t),
                    progress_of = progress s1\<rparr>))"

definition addFrame :: "JSDecoder \<Rightarrow> int list \<Rightarrow> JSDecoder \<times> JSResult" where
  "addFrame s dotValues =
     (let rawBytes = dotsToBytesJS dotValues
      in if length rawBytes < 2 then (s, \<lparr>complete = False, progress_of = progress s\<rparr>)
         else (let frameIndex = rawBytes ! 0;
                   totalFrames = rawBytes ! 1
               in if totalFrames = 0 \<or> totalFrames > 200
                  then (s, \<lparr>complete = False, progress_of = progress s\<rparr>)
                  else if frameIndex \<ge> totalFrames
                  then (s, \<lparr>complete = False, progress_of = progress s\<rparr>)
                  else (case lockTotal (tally s totalFrames) of
                          Inl early \<Rightarrow> early
                        | Inr s1 \<Rightarrow>
                            if Some totalFrames \<noteq> js_totalFrames s1
                            then (s1, \<lparr>complete = False, progress_of = progress s1\<rparr>)
                            else accumulate s1 frameIndex dotValues)))"


subsection \<open>Transform stabilisation in \<open>_scan\<close>\<close>





section \<open>Concrete inputs\<close>

definition dup_dots :: "Dot list" where
  "dup_dots = map (\<lambda>v. \<lparr>Ring = 1, DIndex = 0, Value = v\<rparr>) [0, 0, 0, 0, 0, 4]"

definition dup_decoder :: Decoder where
  "dup_decoder = \<lparr>d_config = DefaultConfig, frames = [0 \<mapsto> [7]], total = 3, received = 1\<rparr>"

definition vote_captures :: "int list list" where
  "vote_captures = [[3, 5], [7, 5], [3, 5], [3, 0], [1, 2]]"


definition cap_0_of_2 :: "int list" where "cap_0_of_2 = [0, 0, 0, 0, 1, 0]"
definition cap_1_of_2 :: "int list" where "cap_1_of_2 = [0, 0, 2, 0, 1, 0]"



text \<open>
  A decoder locked onto the total 2 whose bucket for frame index 0 holds three captures
  of frame 1 and one of frame 0.
\<close>

definition contaminated_decoder :: JSDecoder where
  "contaminated_decoder =
     \<lparr>js_votes = [0 \<mapsto> [cap_1_of_2, cap_1_of_2, cap_1_of_2, cap_0_of_2]],
      js_frames = Map.empty, js_totalFrames = Some 2, js_received = 0,
      js_ftCounts = [2 \<mapsto> 10], js_ftTotal = 10\<rparr>"

text \<open>Six dots that decode to the header bytes 5 (frame index) and 1 (frame total).\<close>

definition beyond_dots :: "Dot list" where
  "beyond_dots = map (\<lambda>v. \<lparr>Ring = 1, DIndex = 0, Value = v\<rparr>) [0, 1, 2, 0, 0, 4]"

text \<open>The encoder that \<open>NewEncoder\<close> builds for the default configuration.\<close>

definition default_encoder :: Encoder where
  "default_encoder =
     \<lparr>e_config = DefaultConfig,
      e_layout = \<lparr>LConfig = DefaultConfig, Width = 1, Height = 1,
                   LRings = map (ringLayout DefaultConfig) [0..3]\<rparr>\<rparr>"

text \<open>\<open>NewEncoder(config).Encode(data)\<close>.\<close>

definition encodeWith :: "Config \<Rightarrow> byte list \<Rightarrow> error + Frame list" where
  "encodeWith config data =
     (case NewEncoder config of Inl err \<Rightarrow> Inl err | Inr e \<Rightarrow> Inr (Encode e data))"

text \<open>
  The slice \<open>data[start:end]\<close> of frame \<open>i\<close> for a frame capacity of \<open>b\<close> bytes:
  \<open>start = i * b\<close>, \<open>end\<close> the smaller of \<open>start + b\<close> and \<open>len(data)\<close>.
\<close>

definition chunk :: "byte list \<Rightarrow> nat \<Rightarrow> nat \<Rightarrow> byte list" where
  "chunk data b i = drop (i * b) (take ((i + 1) * b) data)"

text \<open>A configuration with one ring: 6 dots, 18 bits, no room for payload.\<close>

definition one_ring_config :: Config where
  "one_ring_config = \<lparr>Rings = 1, BitsPerDot = 3, FPS = 5, UseFountain = False\<rparr>"

text \<open>
  The caller's loop of the tests: every frame's dots go to \<open>AddFrame\<close> in order, the
  first error stops the run.
\<close>

fun feed :: "Decoder \<Rightarrow> Dot list list \<Rightarrow> error + Decoder" where
  "feed d [] = Inr d"
| "feed d (dots # rest) =
     (case AddFrame d dots of
        (Inl err, d') \<Rightarrow> Inl err
      | (Inr done, d') \<Rightarrow> feed d' rest)"

text \<open>Encoding a payload, feeding every frame to a new decoder, and reading \<open>Data\<close>.\<close>

definition roundTrip :: "Config \<Rightarrow> byte list \<Rightarrow> error + byte list" where
  "roundTrip config data =
     (case encodeWith config data of
        Inl err \<Rightarrow> Inl err
      | Inr fs \<Rightarrow>
          (case feed (NewDecoder config) (map Dots fs) of
             Inl err \<Rightarrow> Inl err
           | Inr d \<Rightarrow> Data d))"

text \<open>A chunk filled up with zero bytes to the 20 payload bytes of a default frame.\<close>

definition padded :: "byte list \<Rightarrow> byte list" where
  "padded c = c @ replicate (20 - length c) 0"

section \<open>Rounding an integer\<close>

text \<open>An integer below \<open>2^53\<close> in magnitude is a double: rounding leaves it as it is.\<close>

lemma roundHalfEven_of_int: "roundHalfEven (of_int m) = m"
  by (simp add: roundHalfEven_def)

lemma bitlen_one: "bitlen 1 = 1"
  by (subst compute_bitlen) simp

lemma bitlen_pos: "0 < k \<Longrightarrow> 1 \<le> bitlen k"
  using bitlen_eq_zero_iff [of k] bitlen_nonneg [of k] by linarith

lemma quotient_of_abs_int: "quotient_of \<bar>of_int k :: rat\<bar> = (\<bar>k\<bar>, 1)"
proof -
  have "\<bar>of_int k :: rat\<bar> = of_int \<bar>k\<bar>"
    by simp
  then show ?thesis
    by (simp only: quotient_of_rat_of_int)
qed

lemma expo_of_int:
  assumes "k \<noteq> 0"
  shows "expo (of_int k) = bitlen \<bar>k\<bar> - 1"
proof -
  have pos: "0 < \<bar>k\<bar>"
    using assms by simp
  have ge: "1 \<le> bitlen \<bar>k\<bar>"
    by (rule bitlen_pos [OF pos])
  have "(2 :: int) ^ nat (bitlen \<bar>k\<bar> - 1) \<le> \<bar>k\<bar>"
    using bitlen_bounds [OF pos] by (rule conjunct1)
  then have "(of_int ((2 :: int) ^ nat (bitlen \<bar>k\<bar> - 1)) :: rat) \<le> of_int \<bar>k\<bar>"
    by (simp only: of_int_le_iff)
  then have "(2 :: rat) ^ nat (bitlen \<bar>k\<bar> - 1) \<le> \<bar>of_int k\<bar>"
    by simp
  moreover have "(2 :: rat) powi (bitlen \<bar>k\<bar> - 1) = 2 ^ nat (bitlen \<bar>k\<bar> - 1)"
    using ge by (simp add: power_int_def)
  ultimately have c: "(2 :: rat) powi (bitlen \<bar>k\<bar> - 1) \<le> \<bar>of_int k\<bar>"
    by (simp only:)
  show ?thesis
    unfolding expo_def quotient_of_abs_int Let_def
    by (simp only: case_prod_conv bitlen_one c if_True)
qed

lemma dbl_of_int:
  assumes "\<bar>k\<bar> < 2 ^ 53"
  shows "dbl (of_int k) = of_int k"
proof (cases "k = 0")
  case True
  then show ?thesis by (simp add: dbl_def)
next
  case False
  define e where "e = bitlen \<bar>k\<bar> - 1"
  have pos: "0 < \<bar>k\<bar>"
    using False by simp
  have e0: "0 \<le> e"
    using bitlen_pos [OF pos] by (simp add: e_def)
  have "bitlen \<bar>k\<bar> \<le> 53"
    using assms by (simp add: bitlen_le_iff_power)
  then have e52: "e \<le> 52"
    by (simp add: e_def)
  have ex: "expo (of_int k) = e"
    unfolding e_def by (rule expo_of_int [OF False])
  have m: "max e (- 1022) = e"
    using e0 by simp
  have ulp: "(2 :: rat) powi (e - 52) = 1 / 2 ^ nat (52 - e)"
  proof (cases "e = 52")
    case True
    then show ?thesis by simp
  next
    case False
    then have "e - 52 < 0" using e52 by simp
    then show ?thesis
      by (simp add: power_int_def inverse_eq_divide power_one_over)
  qed
  have "(of_int k :: rat) / (1 / 2 ^ nat (52 - e)) = of_int (k * 2 ^ nat (52 - e))"
    by simp
  then have r: "roundHalfEven ((of_int k :: rat) / (1 / 2 ^ nat (52 - e))) = k * 2 ^ nat (52 - e)"
    by (simp only: roundHalfEven_of_int)
  have "dbl (of_int k) = of_int (k * 2 ^ nat (52 - e)) * (1 / 2 ^ nat (52 - e))"
    using False unfolding dbl_def ex m Let_def ulp r by simp
  then show ?thesis
    by simp
qed

text \<open>
  Evaluation uses this equation: a value that is an integer below \<open>2^53\<close> in magnitude
  is returned as it is, anything else goes through the definition.
\<close>

lemma dbl_code [code]:
  "dbl x =
     (if x = 0 then 0
      else (let (p, q) = quotient_of x
            in if q = 1 \<and> \<bar>p\<bar> < 2 ^ 53 then x
               else (let e = max (expo x) (- 1022);
                         ulp = 2 powi (e - 52)
                     in of_int (roundHalfEven (x / ulp)) * ulp)))"
proof (cases "snd (quotient_of x) = 1 \<and> \<bar>fst (quotient_of x)\<bar> < 2 ^ 53")
  case True
  then have "quotient_of x = (fst (quotient_of x), 1)"
    by (metis prod.collapse)
  then have "x = of_int (fst (quotient_of x))"
    using quotient_of_div [of x "fst (quotient_of x)" 1] by simp
  then have "dbl x = x"
    using dbl_of_int [of "fst (quotient_of x)"] True by simp
  then show ?thesis
    using True by (simp add: Let_def case_prod_beta)
next
  case False
  then show ?thesis
    by (auto simp: dbl_def Let_def case_prod_beta)
qed

section \<open>Ring radii\<close>

text \<open>With two or more rings the three radius functions are the same interpolation.\<close>

lemma ringRadius_interpolation:
  "totalRings \<noteq> 1 \<Longrightarrow>
     ringRadius ring totalRings
       = dbl (dbl (22 / 100)
              + dbl (dbl (dbl (dbl (70 / 100) - dbl (22 / 100)) * of_int (ring - 1))
                     / of_int (totalRings - 1)))
     \<and> ringRadius_js ring totalRings = ringRadius ring totalRings
     \<and> coreRingRadius ring totalRings = ringRadius ring totalRings"
  by (simp add: ringRadius_def ringRadius_js_def coreRingRadius_def MIN_RING_RADIUS_def
      MAX_RING_RADIUS_def RING_RADIUS_MIN_def RING_RADIUS_MAX_def Let_def)

text \<open>
  C8. With exactly one ring, \<open>ringRadius\<close> of layout.go and its mirror in layout.js return
  the constant 0.40, while the midpoint of 0.22 and 0.70 is what the browser core's
  \<open>layout\<close> returns for its single ring; the two differ.
\<close>

theorem ringRadius_single_ring:
  "ringRadius 1 1 = 3602879701896397 / 9007199254740992
   \<and> ringRadius_js 1 1 = 3602879701896397 / 9007199254740992
   \<and> coreRingRadius 1 1 = 517913957147607 / 1125899906842624
   \<and> \<bar>ringRadius 1 1 - 40 / 100\<bar> < 1 / 10 ^ 15
   \<and> \<bar>coreRingRadius 1 1 - 46 / 100\<bar> < 1 / 10 ^ 15
   \<and> ringRadius 1 1 \<noteq> coreRingRadius 1 1
   \<and> ringRadius_js 1 1 \<noteq> coreRingRadius 1 1"
proof -
  have go: "ringRadius 1 1 = 3602879701896397 / 9007199254740992"
    by code_simp
  have js: "ringRadius_js 1 1 = 3602879701896397 / 9007199254740992"
    by code_simp
  have core: "coreRingRadius 1 1 = 517913957147607 / 1125899906842624"
    by code_simp
  show ?thesis
    unfolding go js core by simp
qed

section \<open>Duplicate frames in the Go decoder\<close>

text \<open>
  C10. When \<open>AddFrame\<close> is given a valid frame (at least two bytes decode and the frame
  total is not zero) whose frame index is already stored, the stored payloads and the
  received count stay as they were, and the decoder's \<open>total\<close> becomes the frame total
  of the new header.
\<close>

theorem AddFrame_duplicate_index:
  assumes "dots \<noteq> []"
    and "dotsToBytes d dots = Inr data"
    and "2 \<le> length data"
    and "uint (data ! 1) \<noteq> 0"
    and "frames d (uint (data ! 0)) = Some old"
  shows "frames (snd (AddFrame d dots)) = frames d
       \<and> received (snd (AddFrame d dots)) = received d
       \<and> total (snd (AddFrame d dots)) = uint (data ! 1)
       \<and> d_config (snd (AddFrame d dots)) = d_config d
       \<and> fst (AddFrame d dots) = Inr (received d \<ge> uint (data ! 1))"
  using assms by (simp add: AddFrame_def Let_def)

theorem AddFrame_duplicate_index_witness:
  "frames (snd (AddFrame dup_decoder dup_dots)) = frames dup_decoder
   \<and> frames dup_decoder 0 = Some [7]
   \<and> received (snd (AddFrame dup_decoder dup_dots)) = 1
   \<and> total dup_decoder = 3
   \<and> total (snd (AddFrame dup_decoder dup_dots)) = 1"
proof -
  have bytes: "dotsToBytes dup_decoder dup_dots = Inr [0, 1]"
    by code_simp
  have "dup_dots \<noteq> []"
    by (simp add: dup_dots_def)
  from AddFrame_duplicate_index [OF this bytes, of "[7]"] show ?thesis
    by (simp add: dup_decoder_def)
qed

section \<open>Per-dot majority vote\<close>

lemma maskedAt_less: "maskedAt c d < 8"
proof -
  have "(x::int) AND 7 \<le> 7" for x
    by (rule AND_upper2) simp
  moreover have "0 \<le> (x::int) AND 7" for x
    by simp
  ultimately show ?thesis
    by (auto simp: maskedAt_def nat_less_iff)
qed

lemma maskedAt_in_range: "d < length c \<Longrightarrow> 0 \<le> c ! d \<Longrightarrow> c ! d < 8 \<Longrightarrow> maskedAt c d = nat (c ! d)"
proof -
  assume a: "d < length c" "0 \<le> c ! d" "c ! d < 8"
  have "c ! d AND mask 3 = c ! d mod 2 ^ 3"
    by (simp flip: take_bit_eq_mask add: take_bit_eq_mod)
  then have "c ! d AND 7 = c ! d mod 8"
    by (simp add: mask_eq_exp_minus_1)
  with a show ?thesis by (simp add: maskedAt_def)
qed

lemma count_fold:
  "v < length cs \<Longrightarrow>
   (foldl (\<lambda>counts c. counts[f c := counts ! f c + 1]) cs caps) ! v
     = cs ! v + length (filter (\<lambda>c. f c = v) caps)
   \<and> length (foldl (\<lambda>counts c. counts[f c := counts ! f c + 1]) cs caps) = length cs"
proof (induction caps arbitrary: cs)
  case Nil
  then show ?case by simp
next
  case (Cons c caps)
  then show ?case by (auto simp: nth_list_update)
qed

lemma countVotes_nth:
  "v < 8 \<Longrightarrow> countVotes captures d ! v = length (filter (\<lambda>c. maskedAt c d = v) captures)"
  unfolding countVotes_def using count_fold [of v "[0, 0, 0, 0, 0, 0, 0, 0]" "\<lambda>c. maskedAt c d" captures]
  by (simp add: nth_Cons')

lemma argmax_fold:
  "foldl (\<lambda>best v2. if counts ! v2 > (counts ! best :: nat) then v2 else best) b xs \<in> set (b # xs)
   \<and> (\<forall>v \<in> set (b # xs). counts ! v
         \<le> counts ! foldl (\<lambda>best v2. if counts ! v2 > counts ! best then v2 else best) b xs)"
proof (induction xs arbitrary: b)
  case Nil
  then show ?case by simp
next
  case (Cons x xs)
  show ?case
    using Cons [of "if counts ! x > counts ! b then x else b"]
    by (auto intro: order_trans less_imp_le split: if_splits)
qed

lemma pickBest_max: "pickBest counts < 8 \<and> (\<forall>v < 8. counts ! v \<le> counts ! pickBest counts)"
proof -
  have s: "set (0 # [1..<8]) = {v. v < (8 :: nat)}"
    by (auto simp: less_Suc_eq_0_disj)
  from argmax_fold [of counts 0 "[1..<8]"] show ?thesis
    unfolding pickBest_def s by blast
qed


lemma filter_length_mono:
  "(\<And>x. x \<in> set xs \<Longrightarrow> P x \<Longrightarrow> Q x) \<Longrightarrow> length (filter P xs) \<le> length (filter Q xs)"
  by (induction xs) auto

text \<open>
  C3. Take captures of equal length \<open>n\<close> and a dot position \<open>d\<close> at which strictly more
  than half of the captures hold the same dot value \<open>m\<close> (a palette index, 0 to 7). Then
  \<open>_majorityVote\<close> returns a vector of length \<open>n\<close> holding \<open>m\<close> at \<open>d\<close>, whatever the other
  captures hold there. This covers every set of five or more captures, in particular
  five captures of which two are wrong at the position.
\<close>

theorem majorityVote_majority:
  assumes len: "\<forall>c \<in> set captures. length c = n"
    and d: "d < n"
    and m: "0 \<le> m" "m < 8"
    and maj: "2 * length (filter (\<lambda>c. c ! d = m) captures) > length captures"
  shows "length (majorityVote captures) = n \<and> majorityVote captures ! d = m"
proof -
  from maj have ne: "captures \<noteq> []" by auto
  then have n0: "length (captures ! 0) = n"
    using len by (cases captures) auto
  let ?cnt = "countVotes captures d"
  let ?r = "pickBest ?cnt"
  have agree: "maskedAt c d = nat m" if "c \<in> set captures" "c ! d = m" for c
    using that len d m maskedAt_in_range [of d c] by auto
  have cm: "length (filter (\<lambda>c. c ! d = m) captures) \<le> ?cnt ! nat m"
  proof -
    have "length (filter (\<lambda>c. c ! d = m) captures)
            \<le> length (filter (\<lambda>c. maskedAt c d = nat m) captures)"
      using agree by (intro filter_length_mono) auto
    then show ?thesis using m by (simp add: countVotes_nth)
  qed
  have r8: "?r < 8" and rmax: "?cnt ! nat m \<le> ?cnt ! ?r"
    using pickBest_max [of ?cnt] m by auto
  have "?r = nat m"
  proof (rule ccontr)
    assume neq: "?r \<noteq> nat m"
    have "length (filter (\<lambda>c. maskedAt c d = ?r) captures)
            + length (filter (\<lambda>c. maskedAt c d = nat m) captures) \<le> length captures"
      using neq sum_length_filter_compl [of "\<lambda>c. maskedAt c d = nat m" captures]
        filter_length_mono [of captures "\<lambda>c. maskedAt c d = ?r" "\<lambda>c. maskedAt c d \<noteq> nat m"]
      by auto
    then have "?cnt ! ?r + ?cnt ! nat m \<le> length captures"
      using r8 m by (simp add: countVotes_nth)
    with cm rmax maj show False by linarith
  qed
  then show ?thesis
    using ne n0 d m by (simp add: majorityVote_def)
qed

theorem majorityVote_majority_witness:
  "length (majorityVote vote_captures) = 2
   \<and> majorityVote vote_captures ! 0 = 3 \<and> majorityVote vote_captures ! 1 = 5"
  using majorityVote_majority [of vote_captures 2 0 3]
    majorityVote_majority [of vote_captures 2 1 5]
  by (simp add: vote_captures_def)

section \<open>Hue matching\<close>

text \<open>
  The hues of the eight palette colours, in degrees: 0, 32.94.., 50.58.., 120, 180.86..,
  218.18.., 272.72.. and 300, as the doubles that \<open>rgbToHue\<close> returns. Evaluation uses
  this list.
\<close>

lemma paletteHues_values [code]:
  "paletteHues =
     [0,
      4636058439940217 / 140737488355328,
      7119661175622475 / 140737488355328,
      120,
      6363489306018419 / 35184372088832,
      3838295136963491 / 17592186044416,
      4797868921204363 / 17592186044416,
      300]"
  by code_simp





text \<open>
  Where two palette hues are equally far from the sample hue in exact arithmetic, the
  rounding of the doubles decides: these two samples go to the later index.
\<close>

lemma matchColor_rounded_ties:
  "matchColor 0 209 106 = 4 \<and> matchColor 26 9 31 = 7"
  by code_simp

section \<open>Transform drift\<close>



section \<open>Locking the total frame count\<close>

lemma tally_fields [simp]:
  "js_votes (tally s ft) = js_votes s" "js_frames (tally s ft) = js_frames s"
  "js_totalFrames (tally s ft) = js_totalFrames s" "js_received (tally s ft) = js_received s"
  "js_ftTotal (tally s ft) = js_ftTotal s + 1"
  by (simp_all add: tally_def)

lemma lockTotal_locked: "js_totalFrames s = Some t \<Longrightarrow> lockTotal s = Inr s"
  by (simp add: lockTotal_def)

lemma lockTotal_Inr_fields:
  "lockTotal s = Inr s1 \<Longrightarrow>
     js_votes s1 = js_votes s \<and> js_frames s1 = js_frames s \<and> js_received s1 = js_received s
     \<and> js_ftCounts s1 = js_ftCounts s \<and> js_ftTotal s1 = js_ftTotal s"
  by (auto simp: lockTotal_def Let_def split: if_splits prod.splits)

















section \<open>Contaminated vote buckets\<close>

text \<open>
  C4. Take a capture with a sane header (frame index \<open>fi\<close>, frame total \<open>ft\<close>) that passes
  the locking block with the total locked onto \<open>ft\<close>, and let the bucket for \<open>fi\<close>, with
  this capture appended, reach the vote threshold. If the header of the majority-voted
  dots differs from \<open>fi\<close> or from the locked total, then \<open>addFrame\<close> leaves the bucket for
  \<open>fi\<close> empty, changes no other bucket, stores no payload (the stored frames and the
  received count are as before) and reports \<open>complete = false\<close>.
\<close>

theorem addFrame_contaminated_bucket:
  assumes raw: "2 \<le> length (dotsToBytesJS dv)"
    and valid: "dotsToBytesJS dv ! 1 \<noteq> 0" "dotsToBytesJS dv ! 1 \<le> 200"
      "dotsToBytesJS dv ! 0 < dotsToBytesJS dv ! 1"
    and locked: "lockTotal (tally s (dotsToBytesJS dv ! 1)) = Inr s1"
      "js_totalFrames s1 = Some (dotsToBytesJS dv ! 1)"
    and bucket: "bucket = (case js_votes s (dotsToBytesJS dv ! 0) of None \<Rightarrow> [] | Some vs \<Rightarrow> vs) @ [dv]"
    and reached: "MIN_VOTES \<le> length bucket"
    and mismatch: "nth_opt (dotsToBytesJS (majorityVote bucket)) 0 \<noteq> Some (dotsToBytesJS dv ! 0)
                 \<or> nth_opt (dotsToBytesJS (majorityVote bucket)) 1 \<noteq> Some (dotsToBytesJS dv ! 1)"
  shows "js_votes (fst (addFrame s dv)) = (js_votes s)(dotsToBytesJS dv ! 0 \<mapsto> [])
       \<and> js_frames (fst (addFrame s dv)) = js_frames s
       \<and> js_received (fst (addFrame s dv)) = js_received s
       \<and> complete (snd (addFrame s dv)) = False"
proof -
  let ?fi = "dotsToBytesJS dv ! 0" and ?ft = "dotsToBytesJS dv ! 1"
  from lockTotal_Inr_fields [OF locked(1)]
  have f: "js_votes s1 = js_votes s" "js_frames s1 = js_frames s" "js_received s1 = js_received s"
    by simp_all
  have "addFrame s dv = accumulate s1 ?fi dv"
    using raw valid locked by (simp add: addFrame_def Let_def)
  moreover have "js_votes (fst (accumulate s1 ?fi dv)) = (js_votes s)(?fi \<mapsto> [])
       \<and> js_frames (fst (accumulate s1 ?fi dv)) = js_frames s
       \<and> js_received (fst (accumulate s1 ?fi dv)) = js_received s
       \<and> complete (snd (accumulate s1 ?fi dv)) = False"
    using reached mismatch locked(2) unfolding bucket
    by (auto simp: accumulate_def Let_def f)
  ultimately show ?thesis by simp
qed

theorem addFrame_contaminated_bucket_witness:
  "js_votes (fst (addFrame contaminated_decoder cap_0_of_2)) 0 = Some []
   \<and> js_frames (fst (addFrame contaminated_decoder cap_0_of_2)) = js_frames contaminated_decoder
   \<and> js_frames contaminated_decoder 0 = None
   \<and> js_received (fst (addFrame contaminated_decoder cap_0_of_2)) = 0
   \<and> complete (snd (addFrame contaminated_decoder cap_0_of_2)) = False"
proof -
  have raw: "2 \<le> length (dotsToBytesJS cap_0_of_2)"
    and v1: "dotsToBytesJS cap_0_of_2 ! 1 \<noteq> 0" and v2: "dotsToBytesJS cap_0_of_2 ! 1 \<le> 200"
    and v3: "dotsToBytesJS cap_0_of_2 ! 0 < dotsToBytesJS cap_0_of_2 ! 1"
    by code_simp+
  have hd: "dotsToBytesJS cap_0_of_2 = [0, 2]"
    by code_simp
  have l1: "lockTotal (tally contaminated_decoder (dotsToBytesJS cap_0_of_2 ! 1))
              = Inr (tally contaminated_decoder (dotsToBytesJS cap_0_of_2 ! 1))"
    by (rule lockTotal_locked [of _ 2]) (simp add: contaminated_decoder_def)
  have l2: "js_totalFrames (tally contaminated_decoder (dotsToBytesJS cap_0_of_2 ! 1))
              = Some (dotsToBytesJS cap_0_of_2 ! 1)"
    by (simp add: hd contaminated_decoder_def)
  have b: "[cap_1_of_2, cap_1_of_2, cap_1_of_2, cap_0_of_2, cap_0_of_2] =
      (case js_votes contaminated_decoder (dotsToBytesJS cap_0_of_2 ! 0) of None \<Rightarrow> [] | Some vs \<Rightarrow> vs)
        @ [cap_0_of_2]"
    by (simp add: hd contaminated_decoder_def)
  have r: "MIN_VOTES \<le> length [cap_1_of_2, cap_1_of_2, cap_1_of_2, cap_0_of_2, cap_0_of_2]"
    by (simp add: MIN_VOTES_def)
  have m: "nth_opt (dotsToBytesJS (majorityVote [cap_1_of_2, cap_1_of_2, cap_1_of_2, cap_0_of_2, cap_0_of_2])) 0
             \<noteq> Some (dotsToBytesJS cap_0_of_2 ! 0)
         \<or> nth_opt (dotsToBytesJS (majorityVote [cap_1_of_2, cap_1_of_2, cap_1_of_2, cap_0_of_2, cap_0_of_2])) 1
             \<noteq> Some (dotsToBytesJS cap_0_of_2 ! 1)"
    by code_simp
  from addFrame_contaminated_bucket [OF raw v1 v2 v3 l1 l2 b r m] show ?thesis
    by (simp add: hd contaminated_decoder_def)
qed

section \<open>Malformed headers\<close>

text \<open>
  The consensus decoder returns before touching its state when fewer than two bytes
  decode, when the frame total is 0 or above 200, or when the frame index is not below
  the frame total.
\<close>

lemma addFrame_malformed_header:
  assumes "length (dotsToBytesJS dv) < 2 \<or> dotsToBytesJS dv ! 1 = 0 \<or> dotsToBytesJS dv ! 1 > 200
           \<or> dotsToBytesJS dv ! 0 \<ge> dotsToBytesJS dv ! 1"
  shows "addFrame s dv = (s, \<lparr>complete = False, progress_of = progress s\<rparr>)"
  using assms by (auto simp: addFrame_def Let_def)

text \<open>
  The Go decoder returns \<open>ErrInvalidFrame\<close>, unchanged, for an empty dot list, for fewer
  than two decoded bytes and for a frame total of 0.
\<close>

lemma AddFrame_invalid_header:
  assumes "dots = [] \<or> (\<exists>data. dotsToBytes d dots = Inr data \<and> (length data < 2 \<or> uint (data ! 1) = 0))"
  shows "AddFrame d dots = (Inl ErrInvalidFrame, d)"
  using assms by (auto simp: AddFrame_def Let_def)

text \<open>
  C5. The Go decoder has no test of the frame index against the frame total. On a new
  decoder, six dots decoding to the header (index 5, total 1) are accepted: the payload
  is stored under index 5, \<open>total\<close> and \<open>received\<close> become 1, and \<open>AddFrame\<close> returns
  \<open>true\<close> (all frames received) although \<open>Data\<close> then fails with \<open>ErrIncompleteData\<close>.
\<close>

theorem AddFrame_index_beyond_total:
  "dotsToBytes (NewDecoder DefaultConfig) beyond_dots = Inr [5, 1]
   \<and> fst (AddFrame (NewDecoder DefaultConfig) beyond_dots) = Inr True
   \<and> received (snd (AddFrame (NewDecoder DefaultConfig) beyond_dots)) = 1
   \<and> total (snd (AddFrame (NewDecoder DefaultConfig) beyond_dots)) = 1
   \<and> frames (snd (AddFrame (NewDecoder DefaultConfig) beyond_dots)) 5 = Some []
   \<and> Data (snd (AddFrame (NewDecoder DefaultConfig) beyond_dots)) = Inl ErrIncompleteData"
  by code_simp

section \<open>The encoder\<close>

lemma go_div_nonneg: "0 \<le> a \<Longrightarrow> 0 < b \<Longrightarrow> go_div a b = a div b"
  by (simp add: go_div_def sgn_if)

lemma upto_as_upt: "[0..int k - 1] = map int [0..<k]"
proof (induction k)
  case 0
  then show ?case by simp
next
  case (Suc k)
  have "[0..int (Suc k) - 1] = [0..int k - 1] @ [int k]"
    using upto_rec2 [of 0 "int k"] by simp
  with Suc show ?case by simp
qed

lemma concat_chunks:
  "concat (map (\<lambda>i. drop (i * b) (take ((i + 1) * b) xs)) [0..<k]) = take (k * b) xs"
proof (induction k)
  case 0
  then show ?case by simp
next
  case (Suc k)
  have "take (k * b) xs @ drop (k * b) (take ((k + 1) * b) xs) = take ((k + 1) * b) xs"
    by (metis append_take_drop_id take_take min.absorb1 le_add2 mult_Suc Suc_eq_plus1)
  with Suc show ?case by simp
qed

lemma NewEncoder_default: "NewEncoder DefaultConfig = Inr default_encoder"
  by (simp add: NewEncoder_def NewLayout_def default_encoder_def DefaultConfig_def)

lemma encodeFrame_fields:
  assumes "0 < bpf"
  shows "Payload (encodeFrame e data (int bpf) T (int i)) = chunk data bpf i"
    and "Index (encodeFrame e data (int bpf) T (int i)) = int i"
    and "Total (encodeFrame e data (int bpf) T (int i)) = T"
proof -
  have "nat (int i * int bpf) = i * bpf"
    by (simp add: nat_mult_distrib)
  moreover have "take (nat (if int i * int bpf + int bpf > int (length data) then int (length data)
                       else int i * int bpf + int bpf)) data = take ((i + 1) * bpf) data"
  proof (cases "int i * int bpf + int bpf > int (length data)")
    case True
    then have "length data \<le> (i + 1) * bpf"
      by (metis add.commute int_ops(7) less_imp_le mult_Suc of_nat_add Suc_eq_plus1 nat_int_comparison(3))
    with True show ?thesis by simp
  next
    case False
    have "nat (int i * int bpf + int bpf) = (i + 1) * bpf"
      by (simp add: nat_add_distrib nat_mult_distrib)
    with False show ?thesis by simp
  qed
  ultimately show "Payload (encodeFrame e data (int bpf) T (int i)) = chunk data bpf i"
    by (simp add: encodeFrame_def chunk_def Let_def)
  show "Index (encodeFrame e data (int bpf) T (int i)) = int i"
    "Total (encodeFrame e data (int bpf) T (int i)) = T"
    by (simp_all add: encodeFrame_def Let_def)
qed

lemma Encode_unfold:
  assumes "BytesPerFrame (e_config e) = int bpf" and "0 < bpf"
    and "T = (if (int (length data) + int bpf - 1) div int bpf > 255 then 255
              else nat ((int (length data) + int bpf - 1) div int bpf))"
  shows "Encode e data = map (\<lambda>i. encodeFrame e data (int bpf) (int T) (int i)) [0..<T]"
proof -
  have d: "go_div (int (length data) + int bpf - 1) (int bpf) = (int (length data) + int bpf - 1) div int bpf"
    using assms(2) by (intro go_div_nonneg) auto
  have nn: "0 \<le> (int (length data) + int bpf - 1) div int bpf"
    using assms(2) by (simp add: pos_imp_zdiv_nonneg_iff)
  have T: "int T = (if (int (length data) + int bpf - 1) div int bpf > 255 then 255
              else (int (length data) + int bpf - 1) div int bpf)"
    using nn assms(3) by simp
  have "Encode e data = map (encodeFrame e data (int bpf) (int T)) [0..int T - 1]"
    unfolding Encode_def Let_def assms(1) d T [symmetric] using assms(2) by simp
  then show ?thesis
    by (simp add: upto_as_upt comp_def)
qed

text \<open>
  C9 (as amended). For an encoder whose configuration has a positive \<open>BytesPerFrame\<close> and
  a payload longer than 255 times \<open>BytesPerFrame\<close>, \<open>Encode\<close> returns exactly 255 frames,
  with indices 0 to 254 and total 255, whose payloads together are the first
  \<open>255 * BytesPerFrame\<close> bytes of the payload. The result is a plain frame list: nothing in
  it tells that the rest was dropped.
\<close>

theorem Encode_truncates:
  assumes "0 < BytesPerFrame (e_config e)"
    and "int (length data) > 255 * BytesPerFrame (e_config e)"
  shows "length (Encode e data) = 255
       \<and> map Index (Encode e data) = [0..254]
       \<and> (\<forall>f \<in> set (Encode e data). Total f = 255)
       \<and> concat (map Payload (Encode e data))
           = take (nat (255 * BytesPerFrame (e_config e))) data"
proof -
  obtain bpf where bpf: "BytesPerFrame (e_config e) = int bpf" "0 < bpf"
    using assms(1) by (metis zero_less_imp_eq_int)
  have "256 * int bpf \<le> int (length data) + int bpf - 1"
    using assms(2) bpf by simp
  then have "256 \<le> (int (length data) + int bpf - 1) div int bpf"
    using zdiv_mono1 [of "256 * int bpf" "int (length data) + int bpf - 1" "int bpf"] bpf(2)
    by simp
  then have T: "(255 :: nat) = (if (int (length data) + int bpf - 1) div int bpf > 255 then 255
              else nat ((int (length data) + int bpf - 1) div int bpf))"
    by simp
  have E: "Encode e data = map (\<lambda>i. encodeFrame e data (int bpf) 255 (int i)) [0..<255]"
    using Encode_unfold [OF bpf T] by simp
  have p: "map Payload (Encode e data) = map (\<lambda>i. chunk data bpf i) [0..<255]"
    unfolding E using encodeFrame_fields(1) [OF bpf(2)] by (simp add: comp_def)
  have i: "map Index (Encode e data) = map int [0..<255]"
    unfolding E using encodeFrame_fields(2) [OF bpf(2)] by (simp add: comp_def)
  have t: "\<forall>f \<in> set (Encode e data). Total f = 255"
    unfolding E using encodeFrame_fields(3) [OF bpf(2)] by auto
  have "concat (map Payload (Encode e data)) = take (255 * bpf) data"
    unfolding p chunk_def by (rule concat_chunks)
  moreover have "nat (255 * int bpf) = 255 * bpf"
    by (simp add: nat_mult_distrib)
  moreover have "map int [0..<255] = [0..254]"
    using upto_as_upt [of 255] by simp
  ultimately show ?thesis
    using i t bpf E by simp
qed

theorem Encode_truncates_witness:
  "length (Encode default_encoder (replicate 5101 65)) = 255
   \<and> concat (map Payload (Encode default_encoder (replicate 5101 65))) = replicate 5100 65"
proof -
  have "BytesPerFrame DefaultConfig = 20"
    by code_simp
  then have b: "BytesPerFrame (e_config default_encoder) = 20"
    by (simp add: default_encoder_def)
  have "0 < BytesPerFrame (e_config default_encoder)"
    and "int (length (replicate 5101 (65 :: byte))) > 255 * BytesPerFrame (e_config default_encoder)"
    unfolding b by simp_all
  from Encode_truncates [OF this] show ?thesis
    unfolding b by simp
qed

text \<open>
  With a configuration whose \<open>BytesPerFrame\<close> is not positive, \<open>Encode\<close> returns no frame
  at all: one ring of 3-bit dots gives \<open>BytesPerFrame = 0\<close>, and a one-byte payload (longer
  than \<open>255 * 0\<close>) is encoded to the empty frame list.
\<close>

theorem Encode_degenerate_config:
  "BytesPerFrame one_ring_config = 0
   \<and> int (length [65 :: byte]) > 255 * BytesPerFrame one_ring_config
   \<and> encodeWith one_ring_config [65] = Inr []"
proof -
  have b: "BytesPerFrame one_ring_config = 0"
    by code_simp
  have "\<not> Rings one_ring_config < 0"
    by (simp add: one_ring_config_def)
  then have "encodeWith one_ring_config [65] = Inr []"
    by (simp add: encodeWith_def NewEncoder_def NewLayout_def Encode_def b)
  then show ?thesis
    unfolding b by simp
qed

section \<open>Round trip through encoder and decoder\<close>

subsection \<open>Bits of a byte and of a dot\<close>

lemma bit01: "(w :: byte) AND 1 = 0 \<or> w AND 1 = 1"
  by (simp add: and_one_eq mod_2_eq_odd)

lemma rev_upto_2: "rev [0..2] = [2, 1, 0 :: int]"
  by code_simp

lemma upto_2: "[0..2] = [0, 1, 2 :: int]"
  by code_simp

lemma upt_8: "[0..<8] = [0, 1, 2, 3, 4, 5, 6, 7 :: nat]"
  by code_simp

lemma pack3:
  assumes "x = 0 \<or> x = (1 :: byte)" "y = 0 \<or> y = (1 :: byte)" "z = 0 \<or> z = (1 :: byte)"
  shows "map (\<lambda>b. drop_bit (nat b) (push_bit 1 (push_bit 1 (push_bit 1 0 OR x) OR y) OR z) AND 1)
           (rev [0..2]) = [x, y, z]"
  using assms unfolding rev_upto_2 by (elim disjE) simp_all

lemma pack_step:
  "push_bit 1 (drop_bit (Suc k) w) OR (drop_bit k w AND 1) = drop_bit k (w :: byte)"
proof (rule bit_eqI)
  fix n
  have "bit (push_bit 1 (drop_bit (Suc k) w) OR (drop_bit k w AND 1)) n
      \<longleftrightarrow> (1 \<le> n \<and> possible_bit TYPE(byte) n \<and> bit w (Suc k + (n - 1))) \<or> (bit w (k + n) \<and> n = 0)"
    by (simp only: bit_or_iff bit_push_bit_iff bit_and_iff bit_drop_bit_eq bit_1_iff comp_def)
  also have "\<dots> \<longleftrightarrow> bit w (k + n)"
    by (cases n) (auto simp: bit_imp_possible_bit dest: bit_imp_le_length)
  finally show "bit (push_bit 1 (drop_bit (Suc k) w) OR (drop_bit k w AND 1)) n = bit (drop_bit k w) n"
    by (simp add: bit_drop_bit_eq)
qed

lemma drop_bit_8: "drop_bit 8 (w :: byte) = 0"
  by (rule bit_eqI) (auto simp add: bit_drop_bit_eq dest: bit_imp_le_length)


lemma pack8:
  "push_bit 1 (push_bit 1 (push_bit 1 (push_bit 1 (push_bit 1 (push_bit 1 (push_bit 1 (push_bit 1 0
     OR (drop_bit 7 b AND 1)) OR (drop_bit 6 b AND 1)) OR (drop_bit 5 b AND 1))
     OR (drop_bit 4 b AND 1)) OR (drop_bit 3 b AND 1)) OR (drop_bit 2 b AND 1))
     OR (drop_bit 1 b AND 1)) OR (drop_bit 0 b AND 1) = (b :: byte)"
proof -
  have s: "push_bit 1 (drop_bit (Suc k) b) OR (drop_bit k b AND 1) = drop_bit k b" for k
    by (rule pack_step)
  have n: "Suc 7 = 8" "Suc 6 = 7" "Suc 5 = 6" "Suc 4 = 5" "Suc 3 = 4" "Suc 2 = 3" "Suc 1 = 2"
    "Suc 0 = 1"
    by simp_all
  have "push_bit 1 0 OR (drop_bit 7 b AND 1) = drop_bit 7 b"
    using s [of 7] unfolding n drop_bit_8 .
  moreover have "push_bit 1 (drop_bit 7 b) OR (drop_bit 6 b AND 1) = drop_bit 6 b"
    using s [of 6] unfolding n .
  moreover have "push_bit 1 (drop_bit 6 b) OR (drop_bit 5 b AND 1) = drop_bit 5 b"
    using s [of 5] unfolding n .
  moreover have "push_bit 1 (drop_bit 5 b) OR (drop_bit 4 b AND 1) = drop_bit 4 b"
    using s [of 4] unfolding n .
  moreover have "push_bit 1 (drop_bit 4 b) OR (drop_bit 3 b AND 1) = drop_bit 3 b"
    using s [of 3] unfolding n .
  moreover have "push_bit 1 (drop_bit 3 b) OR (drop_bit 2 b AND 1) = drop_bit 2 b"
    using s [of 2] unfolding n .
  moreover have "push_bit 1 (drop_bit 2 b) OR (drop_bit 1 b AND 1) = drop_bit 1 b"
    using s [of 1] unfolding n .
  moreover have "push_bit 1 (drop_bit 1 b) OR (drop_bit 0 b AND 1) = drop_bit 0 b"
    using s [of 0] unfolding n .
  moreover have "drop_bit 0 b = b"
    by simp
  ultimately show ?thesis
    by (simp only:)
qed

lemma concat_nth_uniform:
  assumes "\<forall>x \<in> set xs. length (f x) = b" and "i < length xs" and "j < b"
  shows "concat (map f xs) ! (i * b + j) = f (xs ! i) ! j"
  using assms
proof (induction xs arbitrary: i)
  case Nil
  then show ?case by simp
next
  case (Cons x xs)
  show ?case
  proof (cases i)
    case 0
    with Cons.prems show ?thesis by (simp add: nth_append)
  next
    case (Suc i')
    with Cons.prems Cons.IH [of i'] show ?thesis by (simp add: nth_append)
  qed
qed

lemma concat_triples:
  "3 * m \<le> length xs \<Longrightarrow>
   concat (map (\<lambda>k. [xs ! (3 * k), xs ! (3 * k + 1), xs ! (3 * k + 2)]) [0..<m]) = take (3 * m) xs"
proof (induction m)
  case 0
  then show ?case by simp
next
  case (Suc m)
  then have l: "3 * m < length xs" "3 * m + 1 < length xs" "3 * m + 2 < length xs"
    by simp_all
  have "take (3 * Suc m) xs = take (Suc (Suc (Suc (3 * m)))) xs"
    by (simp add: eval_nat_numeral)
  also have "\<dots> = take (3 * m) xs @ [xs ! (3 * m), xs ! (3 * m + 1), xs ! (3 * m + 2)]"
    using l by (simp add: take_Suc_conv_app_nth)
  finally show ?case using Suc by simp
qed

lemma length_bytesToBits: "length (bytesToBits data) = 8 * length data"
  by (induction data) (simp_all add: bytesToBits_def byteBits_def)

lemma bytesToBits_01: "x \<in> set (bytesToBits data) \<Longrightarrow> x = 0 \<or> x = 1"
  using bit01 by (auto simp: bytesToBits_def byteBits_def)

lemma bytesToBits_nth:
  assumes "i < length data" and "j < 8"
  shows "bytesToBits data ! (i * 8 + j) = byteBits (data ! i) ! j"
  unfolding bytesToBits_def
  by (rule concat_nth_uniform) (use assms in \<open>simp_all add: byteBits_def\<close>)

lemma byteBits_nth:
  "byteBits b ! 0 = drop_bit 7 b AND 1" "byteBits b ! 1 = drop_bit 6 b AND 1"
  "byteBits b ! 2 = drop_bit 5 b AND 1" "byteBits b ! 3 = drop_bit 4 b AND 1"
  "byteBits b ! 4 = drop_bit 3 b AND 1" "byteBits b ! 5 = drop_bit 2 b AND 1"
  "byteBits b ! 6 = drop_bit 1 b AND 1" "byteBits b ! 7 = drop_bit 0 b AND 1"
  by (simp_all add: byteBits_def)

lemma packByte_bytesToBits:
  assumes "i < length fb" and "8 * i + 8 \<le> n"
  shows "packByte (take n (bytesToBits fb)) i = fb ! i"
proof -
  have t: "take n (bytesToBits fb) ! (i * 8 + j) = byteBits (fb ! i) ! j" if "j < 8" for j
    using that assms by (simp add: bytesToBits_nth)
  have t0: "take n (bytesToBits fb) ! (i * 8 + 0) = byteBits (fb ! i) ! 0"
    and t1: "take n (bytesToBits fb) ! (i * 8 + 1) = byteBits (fb ! i) ! 1"
    and t2: "take n (bytesToBits fb) ! (i * 8 + 2) = byteBits (fb ! i) ! 2"
    and t3: "take n (bytesToBits fb) ! (i * 8 + 3) = byteBits (fb ! i) ! 3"
    and t4: "take n (bytesToBits fb) ! (i * 8 + 4) = byteBits (fb ! i) ! 4"
    and t5: "take n (bytesToBits fb) ! (i * 8 + 5) = byteBits (fb ! i) ! 5"
    and t6: "take n (bytesToBits fb) ! (i * 8 + 6) = byteBits (fb ! i) ! 6"
    and t7: "take n (bytesToBits fb) ! (i * 8 + 7) = byteBits (fb ! i) ! 7"
    by (rule t, simp)+
  show ?thesis
    unfolding packByte_def upt_8
    by (simp only: foldl.simps t0 t1 t2 t3 t4 t5 t6 t7 byteBits_nth pack8)
qed

lemma dotValue_3:
  "dotValue bits (int k * 3) 3
     = push_bit 1 (push_bit 1 (push_bit 1 0 OR bits ! (3 * k)) OR bits ! (3 * k + 1)) OR bits ! (3 * k + 2)"
proof -
  have n: "nat (int k * 3 + 0) = 3 * k" "nat (int k * 3 + 1) = 3 * k + 1"
    "nat (int k * 3 + 2) = 3 * k + 2"
    by (simp_all add: nat_add_distrib nat_mult_distrib)
  have u: "[0..3 - 1] = [0, 1, 2 :: int]"
    using upto_2 by simp
  show ?thesis
    unfolding dotValue_def u by (simp only: foldl.simps n)
qed

lemma valueBits_dotValue:
  assumes "\<forall>x \<in> set bits. x = 0 \<or> x = 1" and "3 * k + 3 \<le> length bits"
  shows "map (\<lambda>b. drop_bit (nat b) (dotValue bits (int k * 3) 3) AND 1) (rev [0..2])
           = [bits ! (3 * k), bits ! (3 * k + 1), bits ! (3 * k + 2)]"
  unfolding dotValue_3
  by (rule pack3) (use assms in \<open>simp_all\<close>)

subsection \<open>The dots of one frame\<close>

lemma upt_Suc_shift: "[0..<Suc n] = 0 # map Suc [0..<n]"
  by (metis map_Suc_upt upt_conv_Cons zero_less_Suc)

lemma map_upt_Suc_shift: "map f [0..<Suc n] = f 0 # map (\<lambda>k. f (Suc k)) [0..<n]"
  unfolding upt_Suc_shift by (simp add: comp_def)

lemma map_upt_add_shift: "map f [0..<a + b] = map f [0..<a] @ map (\<lambda>k. f (a + k)) [0..<b]"
proof -
  have "[0..<a + b] = [0..<a] @ map (\<lambda>k. a + k) [0..<b]"
    by (induction b) simp_all
  then show ?thesis by (simp add: comp_def)
qed

lemma ringDots_values:
  assumes "0 \<le> bpd" and "0 \<le> di" and "(di + int (length ps)) * bpd \<le> int (length bits)"
  shows "fst (ringDots bits bpd rn j ps (di, dots)) = di + int (length ps)
       \<and> map Value (snd (ringDots bits bpd rn j ps (di, dots)))
           = map Value dots @ map (\<lambda>k. dotValue bits ((di + int k) * bpd) bpd) [0..<length ps]"
  using assms
proof (induction ps arbitrary: di dots j)
  case Nil
  then show ?case by simp
next
  case (Cons p ps)
  have "(di + 1) * bpd \<le> (di + int (length (p # ps))) * bpd"
    using Cons.prems(1) by (intro mult_right_mono) simp_all
  with Cons.prems(3) have here: "\<not> di * bpd + bpd > int (length bits)"
    by (simp add: algebra_simps)
  have "(di + 1 + int (length ps)) * bpd \<le> int (length bits)"
    using Cons.prems(3) by (simp add: algebra_simps)
  from Cons.IH [OF Cons.prems(1) _ this, of "j + 1"
      "dots @ [\<lparr>Ring = rn, DIndex = j, Value = dotValue bits (di * bpd) bpd\<rparr>]"] Cons.prems(2)
  have ih: "fst (ringDots bits bpd rn (j + 1) ps
                  (di + 1, dots @ [\<lparr>Ring = rn, DIndex = j, Value = dotValue bits (di * bpd) bpd\<rparr>]))
              = di + 1 + int (length ps)"
    "map Value (snd (ringDots bits bpd rn (j + 1) ps
                  (di + 1, dots @ [\<lparr>Ring = rn, DIndex = j, Value = dotValue bits (di * bpd) bpd\<rparr>])))
       = map Value (dots @ [\<lparr>Ring = rn, DIndex = j, Value = dotValue bits (di * bpd) bpd\<rparr>])
         @ map (\<lambda>k. dotValue bits ((di + 1 + int k) * bpd) bpd) [0..<length ps]"
    by simp_all
  have lc: "length (p # ps) = Suc (length ps)"
    by simp
  have e: "(di + int (Suc k)) * bpd = (di + 1 + int k) * bpd" for k
    by simp
  have e0: "(di + int 0) * bpd = di * bpd"
    by simp
  have shift: "map (\<lambda>k. dotValue bits ((di + int k) * bpd) bpd) [0..<length (p # ps)]
      = dotValue bits (di * bpd) bpd # map (\<lambda>k. dotValue bits ((di + 1 + int k) * bpd) bpd) [0..<length ps]"
    by (simp only: lc map_upt_Suc_shift e e0)
  show ?case
    unfolding shift using here ih by (simp add: Let_def)
qed

lemma rings_values:
  assumes "0 \<le> bpd" and "0 \<le> di"
    and "(di + int (sum_list (map (\<lambda>r. length (Positions r)) rs))) * bpd \<le> int (length bits)"
  shows "map Value (snd (foldl (\<lambda>acc ring.
                 ringDots bits bpd (go_div (DotCount ring) 6) 0 (Positions ring) acc) (di, dots) rs))
           = map Value dots @ map (\<lambda>k. dotValue bits ((di + int k) * bpd) bpd)
                                [0..<sum_list (map (\<lambda>r. length (Positions r)) rs)]"
  using assms
proof (induction rs arbitrary: di dots)
  case Nil
  then show ?case by simp
next
  case (Cons r rs)
  let ?n = "length (Positions r)" and ?m = "sum_list (map (\<lambda>r. length (Positions r)) rs)"
  obtain di' dots' where rd: "ringDots bits bpd (go_div (DotCount r) 6) 0 (Positions r) (di, dots) = (di', dots')"
    by (cases "ringDots bits bpd (go_div (DotCount r) 6) 0 (Positions r) (di, dots)")
  have "(di + int ?n) * bpd \<le> (di + int (?n + ?m)) * bpd"
    using Cons.prems(1) by (intro mult_right_mono) simp_all
  with Cons.prems(3) have "(di + int ?n) * bpd \<le> int (length bits)"
    by simp
  from ringDots_values [OF Cons.prems(1,2) this, of "go_div (DotCount r) 6" 0 dots] rd
  have di': "di' = di + int ?n"
    and dots': "map Value dots' = map Value dots @ map (\<lambda>k. dotValue bits ((di + int k) * bpd) bpd) [0..<?n]"
    by simp_all
  have "(di' + int ?m) * bpd \<le> int (length bits)"
    using Cons.prems(3) di' by (simp add: add.assoc)
  from Cons.IH [OF Cons.prems(1) _ this, of dots'] Cons.prems(2) di'
  have "map Value (snd (foldl (\<lambda>acc ring.
                 ringDots bits bpd (go_div (DotCount ring) 6) 0 (Positions ring) acc) (di', dots') rs))
           = map Value dots' @ map (\<lambda>k. dotValue bits ((di' + int k) * bpd) bpd) [0..<?m]"
    by simp
  then show ?case
    using rd dots' di'
      map_upt_add_shift [of "\<lambda>k. dotValue bits ((di + int k) * bpd) bpd" ?n ?m]
    by (simp add: add.assoc)
qed

lemma default_ring_sizes:
  "map (\<lambda>r. length (Positions r)) (LRings (e_layout default_encoder)) = [6, 12, 18, 24]"
proof -
  have u: "[0..3] = [0, 1, 2, 3 :: int]"
    by code_simp
  show ?thesis
    unfolding default_encoder_def u by (simp add: ringLayout_def Let_def del: upto.simps)
qed

lemma TotalDots_default: "nat (TotalDots DefaultConfig) = 60"
  by code_simp

lemma bytesToDots_default:
  assumes "23 \<le> length fb"
  shows "map Value (bytesToDots default_encoder fb)
           = map (\<lambda>k. dotValue (bytesToBits fb) (int k * 3) 3) [0..<nat (TotalDots DefaultConfig)]"
proof -
  have c: "BitsPerDot (e_config default_encoder) = 3"
    by (simp add: default_encoder_def DefaultConfig_def)
  have s: "sum_list (map (\<lambda>r. length (Positions r)) (LRings (e_layout default_encoder))) = 60"
    unfolding default_ring_sizes by simp
  have eq: "sum_list (map (\<lambda>r. length (Positions r)) (LRings (e_layout default_encoder)))
              = nat (TotalDots DefaultConfig)"
    by (simp only: s TotalDots_default)
  have "(0 + int (sum_list (map (\<lambda>r. length (Positions r)) (LRings (e_layout default_encoder))))) * 3
          \<le> int (length (bytesToBits fb))"
    unfolding s using assms by (simp add: length_bytesToBits)
  from rings_values [OF _ _ this, of "[]"] show ?thesis
    unfolding bytesToDots_def Let_def c eq by simp
qed

lemma map_nth_take: "n \<le> length xs \<Longrightarrow> map (\<lambda>i. xs ! i) [0..<n] = take n xs"
  by (simp add: list_eq_iff_nth_eq)

lemma dotBits_Value:
  "map (dotBits 3) dots = map (\<lambda>v. map (\<lambda>b. drop_bit (nat b) v AND 1) (rev [0..2])) (map Value dots)"
  by (simp add: dotBits_def comp_def)

lemma frame_bits_roundtrip:
  assumes "length fb = 23"
  shows "concat (map (dotBits 3) (bytesToDots default_encoder fb)) = take 180 (bytesToBits fb)"
proof -
  let ?bits = "bytesToBits fb"
  define m where "m = nat (TotalDots DefaultConfig)"
  have m: "m = 60"
    unfolding m_def by (rule TotalDots_default)
  have len: "length ?bits = 184"
    using assms by (simp add: length_bytesToBits)
  have b01: "\<forall>x \<in> set ?bits. x = 0 \<or> x = 1"
    using bytesToBits_01 by blast
  have "map Value (bytesToDots default_encoder fb)
      = map (\<lambda>k. dotValue ?bits (int k * 3) 3) [0..<m]"
    unfolding m_def by (rule bytesToDots_default) (simp add: assms)
  then have "map (dotBits 3) (bytesToDots default_encoder fb)
      = map (\<lambda>k. map (\<lambda>b. drop_bit (nat b) (dotValue ?bits (int k * 3) 3) AND 1) (rev [0..2])) [0..<m]"
    unfolding dotBits_Value by (simp only: map_map comp_def)
  also have "\<dots> = map (\<lambda>k. [?bits ! (3 * k), ?bits ! (3 * k + 1), ?bits ! (3 * k + 2)]) [0..<m]"
  proof (rule map_cong [OF refl])
    fix k assume "k \<in> set [0..<m]"
    then have "3 * k + 3 \<le> length ?bits" using len m by simp
    from valueBits_dotValue [OF b01 this]
    show "map (\<lambda>b. drop_bit (nat b) (dotValue ?bits (int k * 3) 3) AND 1) (rev [0..2])
            = [?bits ! (3 * k), ?bits ! (3 * k + 1), ?bits ! (3 * k + 2)]" .
  qed
  finally have "concat (map (dotBits 3) (bytesToDots default_encoder fb))
      = concat (map (\<lambda>k. [?bits ! (3 * k), ?bits ! (3 * k + 1), ?bits ! (3 * k + 2)]) [0..<m])"
    by (simp only:)
  also have "\<dots> = take (3 * m) ?bits"
    by (rule concat_triples) (simp add: len m)
  finally show ?thesis by (simp add: m)
qed

lemma frame_roundtrip:
  assumes "length fb = 23" and "BitsPerDot (d_config d) = 3"
  shows "dotsToBytes d (bytesToDots default_encoder fb) = Inr (take 22 fb)"
proof -
  let ?bits = "bytesToBits fb"
  define n where "n = length (take 180 ?bits) div 8"
  have len: "length ?bits = 184"
    using assms by (simp add: length_bytesToBits)
  have n: "n = 22"
    unfolding n_def using len by simp
  have "map (packByte (take 180 ?bits)) [0..<n] = map (\<lambda>i. fb ! i) [0..<n]"
  proof (rule map_cong [OF refl])
    fix i assume "i \<in> set [0..<n]"
    then have "i < length fb" "8 * i + 8 \<le> 180" using assms n by simp_all
    then show "packByte (take 180 ?bits) i = fb ! i" by (rule packByte_bytesToBits)
  qed
  also have "\<dots> = take n fb"
    by (rule map_nth_take) (simp add: assms n)
  finally have p: "map (packByte (take 180 ?bits)) [0..<n] = take 22 fb"
    by (simp only: n)
  have nonneg: "\<not> int (length (bytesToDots default_encoder fb)) * 3 < 0"
    by simp
  show ?thesis
    unfolding dotsToBytes_def Let_def assms(2) frame_bits_roundtrip [OF assms(1)] n_def [symmetric]
    by (simp only: nonneg if_False p)
qed

lemma length_chunk_le: "length (chunk data b i) \<le> b"
  by (simp add: chunk_def)

lemma BitsPerFrame_default: "BitsPerFrame (e_config default_encoder) = 180"
proof -
  have "BitsPerFrame DefaultConfig = 180"
    by code_simp
  then show ?thesis
    by (simp add: default_encoder_def)
qed

lemma BytesPerFrame_default: "BytesPerFrame (e_config default_encoder) = 20"
proof -
  have "BytesPerFrame DefaultConfig = 20"
    by code_simp
  then show ?thesis
    by (simp add: default_encoder_def)
qed

lemma encodeFrame_Dots:
  assumes "0 < bpf"
  shows "Dots (encodeFrame e data (int bpf) T (int i))
           = bytesToDots e
               (let frameBytes = [word_of_int (int i), word_of_int T] @ chunk data bpf i;
                    totalBytes = go_div (BitsPerFrame (e_config e) + 7) 8
                in if int (length frameBytes) < totalBytes
                   then frameBytes @ replicate (nat totalBytes - length frameBytes) 0
                   else frameBytes)"
proof -
  have "Payload (encodeFrame e data (int bpf) T (int i)) = chunk data bpf i"
    by (rule encodeFrame_fields(1) [OF assms])
  then have ch: "drop (nat (int i * int bpf))
               (take (nat (if int i * int bpf + int bpf > int (length data) then int (length data)
                           else int i * int bpf + int bpf)) data) = chunk data bpf i"
    unfolding encodeFrame_def Let_def by (simp only: Frame.simps)
  show ?thesis
    unfolding encodeFrame_def Let_def ch by (simp only: Frame.simps)
qed

lemma length_bytesToDots_default:
  assumes "23 \<le> length fb"
  shows "length (bytesToDots default_encoder fb) = 60"
proof -
  have "length (map Value (bytesToDots default_encoder fb)) = nat (TotalDots DefaultConfig)"
    by (simp only: bytesToDots_default [OF assms] length_map length_upt diff_zero)
  then show ?thesis
    by (simp only: length_map TotalDots_default)
qed

lemma frameBytes_default:
  assumes "length c \<le> 20"
  shows "(let frameBytes = [w1, w2] @ c;
              totalBytes = go_div (BitsPerFrame (e_config default_encoder) + 7) 8
          in if int (length frameBytes) < totalBytes
             then frameBytes @ replicate (nat totalBytes - length frameBytes) 0
             else frameBytes)
         = [w1, w2] @ c @ replicate (21 - length c) (0 :: byte)"
proof -
  have g: "go_div (180 + 7) 8 = 23"
    by (simp add: go_div_def)
  show ?thesis
    unfolding BitsPerFrame_default g Let_def using assms by simp
qed

lemma encodeFrame_Dots_default:
  "Dots (encodeFrame default_encoder data (int 20) T (int i))
     = bytesToDots default_encoder
         ([word_of_int (int i), word_of_int T] @ chunk data 20 i
            @ replicate (21 - length (chunk data 20 i)) 0)"
proof -
  have a: "(0 :: nat) < 20"
    by simp
  show ?thesis
    unfolding encodeFrame_Dots [OF a] frameBytes_default [OF length_chunk_le] by (rule refl)
qed


lemma AddFrame_encoded:
  assumes i: "i < 256" and T: "0 < T" "T < 256" and c: "BitsPerDot (d_config d) = 3"
  shows "AddFrame d (Dots (encodeFrame default_encoder data (int 20) (int T) (int i)))
           = (let d' = (if frames d (int i) = None
                        then d\<lparr>total := int T,
                               frames := (frames d)(int i \<mapsto> padded (chunk data 20 i)),
                               received := received d + 1\<rparr>
                        else d\<lparr>total := int T\<rparr>)
              in (Inr (received d' \<ge> total d'), d'))"
proof -
  let ?c = "chunk data 20 i"
  let ?fb = "[word_of_int (int i), word_of_int (int T)] @ ?c @ replicate (21 - length ?c) (0 :: byte)"
  have l: "length ?c \<le> 20"
    by (rule length_chunk_le)
  then have len: "length ?fb = 23"
    by simp
  have rt: "dotsToBytes d (bytesToDots default_encoder ?fb) = Inr (take 22 ?fb)"
    by (rule frame_roundtrip [OF len c])
  have t: "take 22 ?fb = word_of_int (int i) # word_of_int (int T) # padded ?c"
    using l by (simp add: padded_def)
  have ne: "length (bytesToDots default_encoder ?fb) \<noteq> 0"
    using length_bytesToDots_default [of ?fb] len by simp
  have ui: "uint (word_of_int (int i) :: byte) = int i"
    using i by (simp add: unsigned_of_nat take_bit_nat_eq_self)
  have uT: "uint (word_of_int (int T) :: byte) = int T"
    using T by (simp add: unsigned_of_nat take_bit_nat_eq_self)
  have T0: "int T \<noteq> 0"
    using T by simp
  have h: "(word_of_int (int i) # word_of_int (int T) # padded ?c) ! 0 = (word_of_int (int i) :: byte)"
    "(word_of_int (int i) # word_of_int (int T) # padded ?c) ! 1 = (word_of_int (int T) :: byte)"
    "drop 2 (word_of_int (int i) # word_of_int (int T) # padded ?c) = padded ?c"
    "\<not> length (word_of_int (int i) # word_of_int (int T) # padded ?c) < 2"
    by simp_all
  show ?thesis
    unfolding encodeFrame_Dots_default AddFrame_def rt t Let_def
    by (simp only: ne if_False sum.case h ui uT T0) simp
qed

subsection \<open>All frames\<close>

lemma feed_encoded:
  assumes "distinct xs" and "\<forall>i \<in> set xs. i < 256 \<and> frames d (int i) = None"
    and "0 < T" "T < 256" and "BitsPerDot (d_config d) = 3"
  shows "\<exists>d'. feed d (map (\<lambda>i. Dots (encodeFrame default_encoder data (int 20) (int T) (int i))) xs)
                = Inr d'
           \<and> (\<forall>j. frames d' j = (if j \<in> int ` set xs then Some (padded (chunk data 20 (nat j)))
                                  else frames d j))
           \<and> received d' = received d + int (length xs)
           \<and> (xs \<noteq> [] \<longrightarrow> total d' = int T)
           \<and> d_config d' = d_config d"
  using assms
proof (induction xs arbitrary: d)
  case Nil
  then show ?case by simp
next
  case (Cons x xs)
  let ?d1 = "d\<lparr>total := int T,
               frames := (frames d)(int x \<mapsto> padded (chunk data 20 x)),
               received := received d + 1\<rparr>"
  have x: "x < 256" "frames d (int x) = None"
    using Cons.prems(2) by simp_all
  have step: "AddFrame d (Dots (encodeFrame default_encoder data (int 20) (int T) (int x)))
                = (Inr (received ?d1 \<ge> total ?d1), ?d1)"
    using AddFrame_encoded [OF x(1) Cons.prems(3,4,5), of data] x(2) by (simp add: Let_def)
  have "distinct xs" and "\<forall>i \<in> set xs. i < 256 \<and> frames ?d1 (int i) = None"
    and "BitsPerDot (d_config ?d1) = 3"
    using Cons.prems by auto
  from Cons.IH [OF this(1,2) Cons.prems(3,4) this(3)]
  obtain d' where d': "feed ?d1 (map (\<lambda>i. Dots (encodeFrame default_encoder data (int 20) (int T) (int i))) xs)
                = Inr d'"
    "\<forall>j. frames d' j = (if j \<in> int ` set xs then Some (padded (chunk data 20 (nat j)))
                                  else frames ?d1 j)"
    "received d' = received ?d1 + int (length xs)"
    "xs \<noteq> [] \<longrightarrow> total d' = int T"
    "d_config d' = d_config ?d1"
    by blast
  have tot: "total d' = int T"
  proof (cases xs)
    case Nil
    with d'(1) have "d' = ?d1" by simp
    then show ?thesis by simp
  next
    case Cons
    with d'(4) show ?thesis by simp
  qed
  have "feed d (map (\<lambda>i. Dots (encodeFrame default_encoder data (int 20) (int T) (int i))) (x # xs))
          = Inr d'"
    using step d'(1) by simp
  moreover have "\<forall>j. frames d' j = (if j \<in> int ` set (x # xs) then Some (padded (chunk data 20 (nat j)))
                                  else frames d j)"
    using d'(2) by auto
  moreover have "received d' = received d + int (length (x # xs))"
    using d'(3) by simp
  moreover have "d_config d' = d_config d"
    using d'(5) by simp
  ultimately show ?case
    using tot by blast
qed

lemma collect_all:
  "\<forall>i \<in> set is. fr i = Some (g i) \<Longrightarrow> collect fr is acc = Inr (acc @ concat (map g is))"
  by (induction "is" arbitrary: acc) simp_all

lemma length_chunk_full:
  "(i + 1) * b \<le> length data \<Longrightarrow> length (chunk data b i) = b"
  by (simp add: chunk_def min_def)

lemma concat_padded:
  assumes "0 < T" and "20 * (T - 1) < length data" and "length data \<le> 20 * T"
  shows "concat (map (\<lambda>i. padded (chunk data 20 i)) [0..<T])
           = data @ replicate (20 * T - length data) 0"
proof -
  obtain k where T: "T = Suc k"
    using assms(1) by (cases T) simp_all
  have full: "padded (chunk data 20 i) = chunk data 20 i" if "i < k" for i
  proof -
    have "(i + 1) * 20 \<le> length data"
      using that assms(2) T by simp
    then have "length (chunk data 20 i) = 20"
      by (rule length_chunk_full)
    then show ?thesis
      by (simp add: padded_def)
  qed
  have "concat (map (\<lambda>i. padded (chunk data 20 i)) [0..<k])
          = concat (map (\<lambda>i. chunk data 20 i) [0..<k])"
    using full by (intro arg_cong [where f = concat] map_cong) simp_all
  also have "\<dots> = take (k * 20) data"
    unfolding chunk_def by (rule concat_chunks)
  finally have first: "concat (map (\<lambda>i. padded (chunk data 20 i)) [0..<k]) = take (k * 20) data" .
  have last: "chunk data 20 k = drop (k * 20) data"
    using assms(3) T by (simp add: chunk_def)
  have lenlast: "length (drop (k * 20) data) = length data - k * 20"
    by simp
  have "concat (map (\<lambda>i. padded (chunk data 20 i)) [0..<T])
          = take (k * 20) data @ padded (chunk data 20 k)"
    unfolding T using first by simp
  also have "\<dots> = take (k * 20) data @ drop (k * 20) data
                    @ replicate (20 - (length data - k * 20)) 0"
    unfolding padded_def last lenlast by simp
  also have "\<dots> = (take (k * 20) data @ drop (k * 20) data)
                    @ replicate (20 - (length data - k * 20)) 0"
    by (simp only: append_assoc)
  also have "\<dots> = data @ replicate (20 * T - length data) 0"
  proof -
    have "20 - (length data - k * 20) = 20 * T - length data"
      using assms(2,3) T by simp
    then show ?thesis
      by (simp only: append_take_drop_id)
  qed
  finally show ?thesis .
qed

text \<open>
  C1. For every payload \<open>P\<close> of 1 to 5100 bytes, encoding \<open>P\<close> with the default
  configuration, feeding the dots of every frame to a new decoder and reading \<open>Data\<close>
  succeeds, and the result starts with \<open>P\<close>: it is \<open>P\<close> followed by zero bytes only.
\<close>

theorem roundTrip_default:
  assumes "0 < length P" and "length P \<le> 5100"
  shows "\<exists>out k. roundTrip DefaultConfig P = Inr out \<and> take (length P) out = P
                 \<and> out = P @ replicate k 0"
proof -
  define T where "T = (length P + 19) div 20"
  have T: "0 < T" "T < 256" "20 * (T - 1) < length P" "length P \<le> 20 * T"
    using assms unfolding T_def by arith+
  have Teq: "T = (if (int (length P) + int 20 - 1) div int 20 > 255 then 255
              else nat ((int (length P) + int 20 - 1) div int 20))"
    using assms unfolding T_def by (simp add: nat_div_distrib nat_add_distrib) linarith
  have b: "BytesPerFrame (e_config default_encoder) = int 20"
    using BytesPerFrame_default by simp
  have E: "map Dots (Encode default_encoder P)
             = map (\<lambda>i. Dots (encodeFrame default_encoder P (int 20) (int T) (int i))) [0..<T]"
    unfolding Encode_unfold [OF b _ Teq, simplified] by (simp add: comp_def)
  have c: "BitsPerDot (d_config (NewDecoder DefaultConfig)) = 3"
    by (simp add: NewDecoder_def DefaultConfig_def)
  have "distinct [0..<T]" and "\<forall>i \<in> set [0..<T]. i < 256 \<and> frames (NewDecoder DefaultConfig) (int i) = None"
    using T(2) by (simp_all add: NewDecoder_def)
  from feed_encoded [OF this T(1,2) c, of P]
  obtain d where d: "feed (NewDecoder DefaultConfig) (map Dots (Encode default_encoder P)) = Inr d"
    and fr: "\<forall>j. frames d j = (if j \<in> int ` set [0..<T] then Some (padded (chunk P 20 (nat j)))
                                  else frames (NewDecoder DefaultConfig) j)"
    and rc: "received d = received (NewDecoder DefaultConfig) + int (length [0..<T])"
    and tt: "[0..<T] \<noteq> [] \<longrightarrow> total d = int T"
    unfolding E by blast
  have rc': "received d = int T"
    using rc by (simp add: NewDecoder_def)
  have tt': "total d = int T"
    using tt T(1) by simp
  have "\<forall>i \<in> set (map int [0..<T]). frames d i = Some ((\<lambda>j. padded (chunk P 20 (nat j))) i)"
    using fr by auto
  from collect_all [OF this, of "[]"]
  have "collect (frames d) (map int [0..<T]) [] = Inr (concat (map (\<lambda>i. padded (chunk P 20 i)) [0..<T]))"
    by (simp add: comp_def)
  then have "Data d = Inr (concat (map (\<lambda>i. padded (chunk P 20 i)) [0..<T]))"
    unfolding Data_def rc' tt' by (simp add: upto_as_upt)
  also have "\<dots> = Inr (P @ replicate (20 * T - length P) 0)"
    using concat_padded [OF T(1,3,4)] by simp
  finally have "Data d = Inr (P @ replicate (20 * T - length P) 0)" .
  then have "roundTrip DefaultConfig P = Inr (P @ replicate (20 * T - length P) 0)"
    using d by (simp add: roundTrip_def encodeWith_def NewEncoder_default)
  then show ?thesis
    by simp
qed

theorem roundTrip_default_witness:
  "0 < length [104, 105 :: byte] \<and> length [104, 105 :: byte] \<le> 5100
   \<and> (\<exists>out k. roundTrip DefaultConfig [104, 105] = Inr out
          \<and> take (length [104, 105 :: byte]) out = [104, 105]
          \<and> out = [104, 105] @ replicate k 0)"
proof -
  have h1: "0 < length [104, 105 :: byte]" and h2: "length [104, 105 :: byte] \<le> 5100"
    by simp_all
  from roundTrip_default [OF h1 h2] h1 h2 show ?thesis
    by blast
qed

end
